theory Spec2Isabelle
  imports Main "HOL-Library.Log_Nat"
begin

section \<open>Data model (types.ts)\<close>

text \<open>
  A JavaScript number is represented by the decimal numeral that stands for it:
  \<open>Dec m e\<close> is the value \<open>m / 10 ^ e\<close>. The numeral is canonical when it
  has no trailing zero after the decimal point. Numbers that JavaScript prints in
  positional notation are covered; \<open>NaN\<close>, the infinities and numbers printed
  in exponent notation are not values of this type.
\<close>

datatype jsnumber = Dec int nat

fun canonical :: "jsnumber \<Rightarrow> bool" where
  "canonical (Dec m e) = (e = 0 \<or> m mod 10 \<noteq> 0)"


record Clip =
  clip_index :: jsnumber
  clip_duration :: jsnumber
  clip_required :: bool

record Transition =
  trans_type :: string
  trans_duration :: jsnumber
  between_clips :: "jsnumber \<times> jsnumber"

record SceneData =
  scene_index :: jsnumber
  frame_preview :: string
  frame_path :: "string option"

record OutputJson =
  name :: string
  clips :: "Clip list"
  transitions :: "Transition list"
  logo_outro :: bool
  music_file :: string
  fade_in_duration :: jsnumber
  fade_out_duration :: jsnumber
  scenes :: "SceneData list option"
  vibe_description :: "string option"
  image_prompts :: "string list option"
  video_prompt :: "string option"

text \<open>Of a \<open>File\<close> only the name and the size in bytes are read.\<close>

record File =
  file_name :: string
  file_size :: nat


record VideoResult =
  vr_id :: string
  videoName :: string
  jsonData :: OutputJson
  vr_file :: File

section \<open>Double-precision arithmetic of the progress percentage\<close>

text \<open>
  \<open>Math.floor((videoNumber / totalVideos) * 100)\<close> is evaluated in IEEE 754
  binary64 arithmetic: the quotient is rounded to the nearest double (ties to even),
  the product is rounded again, and the floor is taken of the rounded product.
  \<open>round_double\<close> rounds a rational to 53 significant bits; exponent overflow and
  subnormal numbers do not arise for quotients of array indices by array lengths.
\<close>

definition binade :: "rat \<Rightarrow> int" where
  "binade q = (let (a, b) = quotient_of q; d = bitlen a - bitlen b in
     if 0 \<le> d then (if b * 2 ^ nat d \<le> a then d else d - 1)
     else (if b \<le> a * 2 ^ nat (- d) then d else d - 1))"

definition round_half_even :: "rat \<Rightarrow> int" where
  "round_half_even m = (let f = \<lfloor>m\<rfloor>; r = m - of_int f in
     if r < 1 / 2 then f else if 1 / 2 < r then f + 1
     else if even f then f else f + 1)"

definition round_double :: "rat \<Rightarrow> rat" where
  "round_double q = (if q = 0 then 0 else
     let u = power_int 2 (binade \<bar>q\<bar> - 52) in of_int (round_half_even (q / u)) * u)"

definition js_div :: "nat \<Rightarrow> nat \<Rightarrow> rat" where
  "js_div a b = round_double (of_nat a / of_nat b)"

definition js_mul :: "rat \<Rightarrow> rat \<Rightarrow> rat" where
  "js_mul x y = round_double (x * y)"

definition progress_pct :: "nat \<Rightarrow> nat \<Rightarrow> nat" where
  "progress_pct videoNumber totalVideos =
     nat \<lfloor>js_mul (js_div videoNumber totalVideos) 100\<rfloor>"

section \<open>The enrichment service as seen by the batch component\<close>

text \<open>
  A value thrown inside the per-item \<open>try\<close> block is either an \<open>Error\<close> object
  with its message or some other value (the handler tests \<open>instanceof Error\<close>).
\<close>

datatype thrown = Error string | NonError

text \<open>
  The outcome of one \<open>fetch\<close> followed by \<open>response.json()\<close>: the fetch rejects,
  the status is not 2xx (with the \<open>error\<close> field of the body when it could be read),
  the status is 2xx but the body cannot be parsed, or the parsed body.
\<close>

datatype 'a fetched = Rejected thrown | NotOk "string option" | BadBody thrown | Body 'a

record VibeData =
  failed :: bool
  vibe_extraction :: "string option"
  vibe_error :: "string option"

record Script =
  vibe_response :: "VibeData fetched"
  image_prompts_response :: "string list option fetched"
  video_prompt_response :: "string option fetched"

datatype Stage = VibeStage | ImagePromptsStage | VideoPromptStage

record Analysis =
  resultId :: string
  vibe :: string
  imagePrompts :: "string list option"
  videoPrompt :: "string option"

record FailedVideo =
  fv_videoName :: string
  fv_reason :: string

text \<open>\<open>x || d\<close> on an optional string: a missing or empty string is falsy.\<close>

fun or_default :: "string option \<Rightarrow> string \<Rightarrow> string" where
  "or_default None d = d"
| "or_default (Some s) d = (if s = [] then d else s)"

fun truthy :: "string option \<Rightarrow> bool" where
  "truthy None = False"
| "truthy (Some s) = (s \<noteq> [])"

datatype ItemResult = Completed Analysis | SoftFailed string | Threw thrown

text \<open>
  The body of the per-item \<open>try\<close> block up to \<open>// Store analysis\<close>: the stages
  that were requested, in order, and how the block was left.
\<close>

definition run_stages :: "VideoResult \<Rightarrow> Script \<Rightarrow> Stage list \<times> ItemResult" where
  "run_stages videoResult sc =
    (case vibe_response sc of
       Rejected t \<Rightarrow> ([VibeStage], Threw t)
     | NotOk e \<Rightarrow> ([VibeStage], Threw (Error (''Failed to extract vibe for '' @
          videoName videoResult @ '': '' @ or_default e ''Unknown error'')))
     | BadBody t \<Rightarrow> ([VibeStage], Threw t)
     | Body vibeData \<Rightarrow>
        if failed vibeData \<or> \<not> truthy (vibe_extraction vibeData)
        then ([VibeStage], SoftFailed (or_default (vibe_error vibeData) ''API returned no content''))
        else
         (case image_prompts_response sc of
            Rejected t \<Rightarrow> ([VibeStage, ImagePromptsStage], Threw t)
          | NotOk e \<Rightarrow> ([VibeStage, ImagePromptsStage],
               Threw (Error (''Failed to generate image prompts for '' @
                 videoName videoResult @ '': '' @ or_default e ''Unknown error'')))
          | BadBody t \<Rightarrow> ([VibeStage, ImagePromptsStage], Threw t)
          | Body prompts \<Rightarrow>
             (case video_prompt_response sc of
                Rejected t \<Rightarrow> ([VibeStage, ImagePromptsStage, VideoPromptStage], Threw t)
              | NotOk e \<Rightarrow> ([VibeStage, ImagePromptsStage, VideoPromptStage],
                   Threw (Error (''Failed to generate video prompt for '' @
                     videoName videoResult @ '': '' @ or_default e ''Unknown error'')))
              | BadBody t \<Rightarrow> ([VibeStage, ImagePromptsStage, VideoPromptStage], Threw t)
              | Body vp \<Rightarrow> ([VibeStage, ImagePromptsStage, VideoPromptStage],
                   Completed \<lparr>resultId = vr_id videoResult,
                     vibe = the (vibe_extraction vibeData),
                     imagePrompts = prompts, videoPrompt = vp\<rparr>))))"

section \<open>BatchGeminiAnalysis: handleBatchAnalyze\<close>

text \<open>
  The component state cells, the local accumulators of \<open>handleBatchAnalyze\<close> and
  the calls it makes, in order: the stage requests, the values given to
  \<open>setProgress\<close>, and the calls of the two callbacks. The text of \<open>currentStep\<close>
  is display only and is left out.
\<close>

record BatchState =
  isAnalyzing :: bool
  isComplete :: bool
  progress :: nat
  error :: "string option"
  processedCount :: nat
  failedVideos :: "FailedVideo list"
  analyzedResults :: "VideoResult list"
  failures :: "FailedVideo list"
  allAnalyses :: "Analysis list"
  requests :: "(Stage \<times> VideoResult) list"
  progressEvents :: "nat list"
  autoSaveCalls :: "(VideoResult list \<times> string) list"
  completeCalls :: "Analysis list list"

fun digits :: "nat \<Rightarrow> string" where
  "digits n = (if n < 10 then [''0123456789'' ! n]
     else digits (n div 10) @ [''0123456789'' ! (n mod 10)])"

declare digits.simps [simp del]

definition record_failure :: "nat \<Rightarrow> nat \<Rightarrow> VideoResult \<Rightarrow> string \<Rightarrow> BatchState \<Rightarrow> BatchState" where
  "record_failure videoNumber totalVideos videoResult reason st =
     st\<lparr>failures := failures st @ [\<lparr>fv_videoName = videoName videoResult, fv_reason = reason\<rparr>],
        failedVideos := failedVideos st @
          [\<lparr>fv_videoName = videoName videoResult, fv_reason = reason\<rparr>],
        processedCount := videoNumber,
        progress := progress_pct videoNumber totalVideos,
        progressEvents := progressEvents st @ [progress_pct videoNumber totalVideos]\<rparr>"

definition store_analysis :: "nat \<Rightarrow> nat \<Rightarrow> VideoResult \<Rightarrow> Analysis \<Rightarrow> BatchState \<Rightarrow> BatchState" where
  "store_analysis videoNumber totalVideos videoResult analysis st =
    (let updatedResult = videoResult\<lparr>jsonData := (jsonData videoResult)
            \<lparr>vibe_description := Some (vibe analysis),
             image_prompts := imagePrompts analysis,
             video_prompt := videoPrompt analysis\<rparr>\<rparr>;
         st1 = st\<lparr>allAnalyses := allAnalyses st @ [analysis],
                 analyzedResults := analyzedResults st @ [updatedResult],
                 processedCount := videoNumber,
                 progress := progress_pct videoNumber totalVideos,
                 progressEvents := progressEvents st @ [progress_pct videoNumber totalVideos]\<rparr>
     in if videoNumber mod 5 = 0 \<or> videoNumber = totalVideos
        then st1\<lparr>autoSaveCalls := autoSaveCalls st1 @
               [(analyzedResults st1, ''-progress-'' @ digits videoNumber)]\<rparr>
        else st1)"

text \<open>One iteration of the \<open>for\<close> loop: the \<open>try\<close> block and its \<open>catch\<close>.\<close>

definition process_video :: "nat \<Rightarrow> nat \<Rightarrow> VideoResult \<Rightarrow> Script \<Rightarrow> BatchState \<Rightarrow> BatchState" where
  "process_video videoNumber totalVideos videoResult sc st =
    (let (stages, res) = run_stages videoResult sc;
         st0 = st\<lparr>requests := requests st @ map (\<lambda>s. (s, videoResult)) stages\<rparr>
     in case res of
          SoftFailed failureReason \<Rightarrow>
            record_failure videoNumber totalVideos videoResult failureReason st0
        | Completed analysis \<Rightarrow>
            store_analysis videoNumber totalVideos videoResult analysis st0
        | Threw videoError \<Rightarrow>
            record_failure videoNumber totalVideos videoResult
              (case videoError of Error msg \<Rightarrow> msg | NonError \<Rightarrow> ''Unknown error occurred'') st0)"

text \<open>
  The loop over \<open>videosWithScenes\<close>, from index \<open>i\<close>; \<open>env i\<close> is what the service
  answers for the video at index \<open>i\<close>.
\<close>

fun batch_loop :: "(nat \<Rightarrow> Script) \<Rightarrow> nat \<Rightarrow> nat \<Rightarrow> VideoResult list \<Rightarrow> BatchState \<Rightarrow> BatchState" where
  "batch_loop env totalVideos i [] st = st"
| "batch_loop env totalVideos i (videoResult # rest) st =
     batch_loop env totalVideos (Suc i) rest
       (process_video (i + 1) totalVideos videoResult (env i) st)"

definition eligible :: "VideoResult \<Rightarrow> bool" where
  "eligible r = (case scenes (jsonData r) of None \<Rightarrow> False
     | Some sc \<Rightarrow> 0 < length sc \<and> 0 < file_size (vr_file r))"

definition is_space :: "char \<Rightarrow> bool" where
  "is_space c = (c \<in> set [CHR '' '', CHR 0x09, CHR 0x0A, CHR 0x0B, CHR 0x0C, CHR 0x0D])"

definition trim :: "string \<Rightarrow> string" where
  "trim s = rev (dropWhile is_space (rev (dropWhile is_space s)))"

definition handleBatchAnalyze :: "string \<Rightarrow> (nat \<Rightarrow> Script) \<Rightarrow> VideoResult list \<Rightarrow> BatchState \<Rightarrow> BatchState" where
  "handleBatchAnalyze apiKey env results st =
    (if trim apiKey = [] then
       st\<lparr>error := Some ''API key not found. Please add VITE_GEMINI_API_KEY to your .env.local file''\<rparr>
     else
       let st1 = st\<lparr>isAnalyzing := True, error := None, isComplete := False,
                    processedCount := 0, progress := 0, failedVideos := [],
                    analyzedResults := [], failures := [], allAnalyses := [],
                    progressEvents := progressEvents st @ [0]\<rparr>;
           videosWithScenes = filter eligible results;
           totalVideos = length videosWithScenes
       in if totalVideos = 0 then st1\<lparr>isComplete := True, isAnalyzing := False\<rparr>
          else
            let st2 = batch_loop env totalVideos 0 videosWithScenes st1;
                st3 = st2\<lparr>progress := 100, progressEvents := progressEvents st2 @ [100],
                          completeCalls := completeCalls st2 @ [allAnalyses st2],
                          isComplete := True\<rparr>
            in st3\<lparr>isAnalyzing := False\<rparr>)"

text \<open>
  The outer \<open>catch\<close> block with its \<open>finally\<close>, for a thrown value \<open>err\<close> that
  reaches it when the accumulators are those of \<open>st\<close>.
\<close>

definition batch_catch :: "thrown \<Rightarrow> BatchState \<Rightarrow> BatchState" where
  "batch_catch err st =
    (let errorMessage = (case err of Error msg \<Rightarrow> msg
                          | NonError \<Rightarrow> ''An unexpected error occurred'');
         st1 = st\<lparr>error := Some errorMessage\<rparr>;
         st2 = (if 0 < length (analyzedResults st1)
                then st1\<lparr>autoSaveCalls := autoSaveCalls st1 @
                       [(analyzedResults st1, ''-partial-error-recovery'')]\<rparr>
                else st1)
     in st2\<lparr>isAnalyzing := False\<rparr>)"

definition initial_state :: BatchState where
  "initial_state = \<lparr>isAnalyzing = False, isComplete = False, progress = 0, error = None,
     processedCount = 0, failedVideos = [], analyzedResults = [], failures = [],
     allAnalyses = [], requests = [], progressEvents = [], autoSaveCalls = [],
     completeCalls = []\<rparr>"

section \<open>Per-item outcomes of a run\<close>

definition item_outcome :: "VideoResult \<Rightarrow> Script \<Rightarrow> ItemResult" where
  "item_outcome v sc = snd (run_stages v sc)"

fun outcomes :: "(nat \<Rightarrow> Script) \<Rightarrow> nat \<Rightarrow> VideoResult list \<Rightarrow> ItemResult list" where
  "outcomes env i [] = []"
| "outcomes env i (v # vs) = item_outcome v (env i) # outcomes env (Suc i) vs"

fun is_failure :: "ItemResult \<Rightarrow> bool" where
  "is_failure (Completed a) = False"
| "is_failure (SoftFailed r) = True"
| "is_failure (Threw t) = True"

fun success_of :: "ItemResult \<Rightarrow> Analysis list" where
  "success_of (Completed a) = [a]"
| "success_of (SoftFailed r) = []"
| "success_of (Threw t) = []"

fun failure_of :: "VideoResult \<Rightarrow> ItemResult \<Rightarrow> FailedVideo list" where
  "failure_of v (Completed a) = []"
| "failure_of v (SoftFailed r) = [\<lparr>fv_videoName = videoName v, fv_reason = r\<rparr>]"
| "failure_of v (Threw (Error msg)) = [\<lparr>fv_videoName = videoName v, fv_reason = msg\<rparr>]"
| "failure_of v (Threw NonError) = [\<lparr>fv_videoName = videoName v, fv_reason = ''Unknown error occurred''\<rparr>]"

fun requests_of :: "(nat \<Rightarrow> Script) \<Rightarrow> nat \<Rightarrow> VideoResult list \<Rightarrow> (Stage \<times> VideoResult) list" where
  "requests_of env i [] = []"
| "requests_of env i (v # vs) = map (\<lambda>s. (s, v)) (fst (run_stages v (env i))) @ requests_of env (Suc i) vs"

definition sample_scene :: "nat \<Rightarrow> SceneData" where
  "sample_scene i = \<lparr>scene_index = Dec (int i) 0,
     frame_preview = ''data:image/png;base64,iVBORw0KGgo='', frame_path = None\<rparr>"

definition sample_json :: "string \<Rightarrow> nat \<Rightarrow> OutputJson" where
  "sample_json nm n = \<lparr>name = nm,
     clips = [\<lparr>clip_index = Dec 0 0, clip_duration = Dec 25 1, clip_required = True\<rparr>],
     transitions = [], logo_outro = False, music_file = ''track.mp3'',
     fade_in_duration = Dec 2 0, fade_out_duration = Dec 15 1,
     scenes = Some (map sample_scene [0..<n]),
     vibe_description = None, image_prompts = None, video_prompt = None\<rparr>"

definition sample_video :: "string \<Rightarrow> string \<Rightarrow> nat \<Rightarrow> nat \<Rightarrow> VideoResult" where
  "sample_video ident nm n sz = \<lparr>vr_id = ident, videoName = nm, jsonData = sample_json nm n,
     vr_file = \<lparr>file_name = nm @ ''.mp4'', file_size = sz\<rparr>\<rparr>"

definition ok_script :: "nat \<Rightarrow> Script" where
  "ok_script n = \<lparr>vibe_response = Body \<lparr>failed = False, vibe_extraction = Some ''warm and minimal'',
       vibe_error = None\<rparr>,
     image_prompts_response = Body (Some (replicate n ''a product on a table'')),
     video_prompt_response = Body (Some ''a slow pan over the product'')\<rparr>"

definition soft_fail_script :: Script where
  "soft_fail_script = (ok_script 0)\<lparr>vibe_response :=
     Body \<lparr>failed = True, vibe_extraction = None, vibe_error = Some ''no content''\<rparr>\<rparr>"

definition scenario_videos :: "VideoResult list" where
  "scenario_videos = [sample_video ''id-1'' ''alpha'' 2 1024, sample_video ''id-2'' ''beta'' 3 2048,
     sample_video ''id-3'' ''gamma'' 1 512]"

definition scenario_env :: "nat \<Rightarrow> Script" where
  "scenario_env i = (if i = 0 then ok_script 2
     else if i = 1 then (ok_script 3)\<lparr>image_prompts_response := NotOk (Some ''Service Unavailable'')\<rparr>
     else ok_script 1)"

definition soft_env :: "nat \<Rightarrow> Script" where
  "soft_env i = (if i = 0 then ok_script 2 else if i = 1 then soft_fail_script else ok_script 1)"

definition five_videos :: "VideoResult list" where
  "five_videos = [sample_video ''id-1'' ''v1'' 2 1024, sample_video ''id-2'' ''v2'' 2 1024,
     sample_video ''id-3'' ''v3'' 2 1024, sample_video ''id-4'' ''v4'' 2 1024,
     sample_video ''id-5'' ''v5'' 2 1024]"

definition last_fails_env :: "nat \<Rightarrow> Script" where
  "last_fails_env i = (if i = 4 then soft_fail_script else ok_script 2)"

definition short_script :: Script where
  "short_script = ok_script 1"

definition autoStart :: "string \<Rightarrow> (nat \<Rightarrow> Script) \<Rightarrow> VideoResult list \<Rightarrow> BatchState \<Rightarrow> BatchState" where
  "autoStart apiKey env results st =
    (if apiKey \<noteq> [] \<and> 0 < length results \<and> \<not> isComplete st \<and> \<not> isAnalyzing st
        \<and> \<not> truthy (error st)
     then (if 0 < length (filter eligible results) then handleBatchAnalyze apiKey env results st
           else st\<lparr>isComplete := True, completeCalls := completeCalls st @ [[]]\<rparr>)
     else st)"

definition history_video :: VideoResult where
  "history_video = sample_video ''history-1'' ''old'' 2 0"

definition two_scene_video :: VideoResult where
  "two_scene_video = sample_video ''id-1'' ''alpha'' 2 1024"

definition fifty_videos :: "VideoResult list" where
  "fifty_videos = replicate 50 two_scene_video"

section \<open>App: handleBatchAnalysisComplete\<close>


definition with_enrichment :: "Analysis \<Rightarrow> OutputJson \<Rightarrow> OutputJson" where
  "with_enrichment analysis j = j\<lparr>vibe_description := Some (vibe analysis),
     image_prompts := imagePrompts analysis, video_prompt := videoPrompt analysis\<rparr>"




definition strip_enrichment :: "OutputJson \<Rightarrow> OutputJson" where
  "strip_enrichment j = j\<lparr>vibe_description := None, image_prompts := None, video_prompt := None\<rparr>"








section \<open>Export: the ordered JSON text and the CSV file\<close>

text \<open>
  \<open>Number.isInteger\<close>, \<open>Number.prototype.toFixed(1)\<close> (only ever applied to an
  integral value) and the number-to-string conversion of \<open>JSON.stringify\<close>, on the
  decimal numeral without trailing zeros.
\<close>

fun strip_zeros :: "int \<Rightarrow> nat \<Rightarrow> jsnumber" where
  "strip_zeros m 0 = Dec m 0"
| "strip_zeros m (Suc e) = (if m mod 10 = 0 then strip_zeros (m div 10) e else Dec m (Suc e))"

fun normalize :: "jsnumber \<Rightarrow> jsnumber" where
  "normalize (Dec m e) = strip_zeros m e"

definition is_integer :: "jsnumber \<Rightarrow> bool" where
  "is_integer v = (case normalize v of Dec m e \<Rightarrow> e = 0)"

fun frac_digits :: "nat \<Rightarrow> nat \<Rightarrow> string" where
  "frac_digits 0 k = []"
| "frac_digits (Suc e) k = frac_digits e (k div 10) @ [''0123456789'' ! (k mod 10)]"

definition sign_text :: "int \<Rightarrow> string" where
  "sign_text m = (if m < 0 then ''-'' else [])"

definition toFixed1 :: "jsnumber \<Rightarrow> string" where
  "toFixed1 v = (case normalize v of Dec m e \<Rightarrow>
     sign_text m @ digits (nat \<bar>m\<bar> div 10 ^ e) @ ''.0'')"

definition toString :: "jsnumber \<Rightarrow> string" where
  "toString v = (case normalize v of Dec m e \<Rightarrow>
     sign_text m @ digits (nat \<bar>m\<bar> div 10 ^ e) @
     (if e = 0 then [] else ''.'' @ frac_digits e (nat \<bar>m\<bar> mod 10 ^ e)))"

text \<open>
  The values that \<open>JSON.stringify\<close> meets in the ordered export object.
\<close>

datatype json = JString string | JNumber jsnumber | JBool bool | JArray "json list"
  | JObject "(string \<times> json) list"

text \<open>
  The replacer function given to \<open>JSON.stringify\<close>: an integral number becomes the
  string \<open>value.toFixed(1)\<close>, any other number is returned as it is.
\<close>

definition replacer :: "jsnumber \<Rightarrow> string + jsnumber" where
  "replacer v = (if is_integer v then Inl (toFixed1 v) else Inr v)"

definition hex_char :: "nat \<Rightarrow> char" where
  "hex_char d = ''0123456789abcdef'' ! d"

definition escape_char :: "char \<Rightarrow> string" where
  "escape_char c =
    (if c = CHR 0x22 then [CHR 0x5C, CHR 0x22]
     else if c = CHR 0x5C then [CHR 0x5C, CHR 0x5C]
     else if c = CHR 0x08 then [CHR 0x5C, CHR ''b'']
     else if c = CHR 0x0C then [CHR 0x5C, CHR ''f'']
     else if c = CHR 0x0A then [CHR 0x5C, CHR ''n'']
     else if c = CHR 0x0D then [CHR 0x5C, CHR ''r'']
     else if c = CHR 0x09 then [CHR 0x5C, CHR ''t'']
     else if (of_char c :: nat) < 32
       then [CHR 0x5C, CHR ''u'', CHR ''0'', CHR ''0'',
             hex_char ((of_char c :: nat) div 16), hex_char ((of_char c :: nat) mod 16)]
     else [c])"

definition quote :: "string \<Rightarrow> string" where
  "quote s = CHR 0x22 # concat (map escape_char s) @ [CHR 0x22]"

fun join :: "string \<Rightarrow> string list \<Rightarrow> string" where
  "join sep [] = []"
| "join sep [x] = x"
| "join sep (x # y # ys) = x @ sep @ join sep (y # ys)"

fun stringify :: "json \<Rightarrow> string" where
  "stringify (JString s) = quote s"
| "stringify (JNumber v) = (case replacer v of Inl s \<Rightarrow> quote s | Inr n \<Rightarrow> toString n)"
| "stringify (JBool b) = (if b then ''true'' else ''false'')"
| "stringify (JArray xs) = ''['' @ join '','' (map stringify xs) @ '']''"
| "stringify (JObject kvs) =
     ''{'' @ join '','' (map (\<lambda>kv. quote (fst kv) @ '':'' @ stringify (snd kv)) kvs) @ ''}''"

definition ordered_clip :: "Clip \<Rightarrow> json" where
  "ordered_clip clip = JObject
     [(''index'', JNumber (clip_index clip)),
      (''duration'', JNumber (clip_duration clip)),
      (''required'', JBool (clip_required clip))]"

definition ordered_transition :: "Transition \<Rightarrow> json" where
  "ordered_transition transition = JObject
     [(''type'', JString (trans_type transition)),
      (''duration'', JNumber (trans_duration transition)),
      (''between_clips'', JArray [JNumber (fst (between_clips transition)),
         JNumber (snd (between_clips transition))])]"

definition orderedJson :: "OutputJson \<Rightarrow> json" where
  "orderedJson j = JObject
     [(''name'', JString (name j)),
      (''clips'', JArray (map ordered_clip (clips j))),
      (''transitions'', JArray (map ordered_transition (transitions j))),
      (''logo_outro'', JBool (logo_outro j)),
      (''music_file'', JString (music_file j)),
      (''fade_in_duration'', JNumber (fade_in_duration j)),
      (''fade_out_duration'', JNumber (fade_out_duration j))]"

definition is_digit :: "char \<Rightarrow> bool" where
  "is_digit c = (c \<in> set ''0123456789'')"

text \<open>
  One attempt of the regular expression \<open>"(-?\d+\.\d+)"\<close> on the text that follows
  an opening quote: the captured numeral and the text after the closing quote.
\<close>

definition opt_minus :: "string \<Rightarrow> string \<times> string" where
  "opt_minus cs = (case cs of [] \<Rightarrow> ([], cs)
     | c # r \<Rightarrow> (if c = CHR ''-'' then (''-'', r) else ([], cs)))"

definition split_digits :: "string \<Rightarrow> string \<times> string" where
  "split_digits cs = (takeWhile is_digit cs, dropWhile is_digit cs)"

fun expect :: "char \<Rightarrow> string \<Rightarrow> string option" where
  "expect c [] = None"
| "expect c (x # xs) = (if x = c then Some xs else None)"

definition match_decimal :: "string \<Rightarrow> (string \<times> string) option" where
  "match_decimal cs =
    (let (sgn, r0) = opt_minus cs; (d1, r1) = split_digits r0
     in if d1 = [] then None
        else (case expect (CHR ''.'') r1 of
           None \<Rightarrow> None
         | Some r2 \<Rightarrow>
            (let (d2, r3) = split_digits r2
             in if d2 = [] then None
                else (case expect (CHR 0x22) r3 of
                   None \<Rightarrow> None
                 | Some r4 \<Rightarrow> Some (sgn @ d1 @ ''.'' @ d2, r4)))))"

lemma expect_Some: "expect c xs = Some r \<longleftrightarrow> xs = c # r"
  by (cases xs) auto

lemma match_decimal_shape:
  assumes "match_decimal cs = Some (n, r)"
  shows "cs = n @ CHR 0x22 # r"
proof -
  obtain sgn r0 where o: "opt_minus cs = (sgn, r0)" by (cases "opt_minus cs")
  then have c0: "cs = sgn @ r0"
    by (auto simp: opt_minus_def split: list.splits if_splits)
  obtain d1 r1 where s1: "split_digits r0 = (d1, r1)" by (cases "split_digits r0")
  then have c1: "r0 = d1 @ r1" by (auto simp: split_digits_def)
  from assms o s1 obtain r2 where e1: "expect (CHR ''.'') r1 = Some r2"
    by (auto simp: match_decimal_def split: if_splits option.splits)
  obtain d2 r3 where s2: "split_digits r2 = (d2, r3)" by (cases "split_digits r2")
  then have c2: "r2 = d2 @ r3" by (auto simp: split_digits_def)
  from assms o s1 e1 s2 have e2: "expect (CHR 0x22) r3 = Some r" and n: "n = sgn @ d1 @ ''.'' @ d2"
    by (auto simp: match_decimal_def split: if_splits option.splits)
  from c0 c1 c2 e1 e2 n show ?thesis by (simp add: expect_Some)
qed

lemma match_decimal_length:
  "match_decimal cs = Some (n, r) \<Longrightarrow> length r < Suc (length cs)"
  by (drule match_decimal_shape) simp

function strip_numeric_quotes :: "string \<Rightarrow> string" where
  "strip_numeric_quotes [] = []"
| "strip_numeric_quotes (c # cs) =
     (if c = CHR 0x22 then
        (case match_decimal cs of
           Some (num_text, rest) \<Rightarrow> num_text @ strip_numeric_quotes rest
         | None \<Rightarrow> c # strip_numeric_quotes cs)
      else c # strip_numeric_quotes cs)"
  by pat_completeness auto
termination
  by (relation "measure length") (auto dest: match_decimal_length)

definition jsonStringWithDecimals :: "OutputJson \<Rightarrow> string" where
  "jsonStringWithDecimals j = strip_numeric_quotes (stringify (orderedJson j))"

definition numeral_char :: "char \<Rightarrow> bool" where
  "numeral_char c = (is_digit c \<or> c = CHR ''-'' \<or> c = CHR ''.'')"

definition stopper :: "char \<Rightarrow> bool" where
  "stopper c = (\<not> numeral_char c \<and> c \<noteq> CHR 0x22)"

definition number_text :: "jsnumber \<Rightarrow> string" where
  "number_text v = (if is_integer v then toFixed1 v else toString v)"

text \<open>
  \<open>passes a a'\<close>: wherever the text \<open>a\<close> stands in front of further text, the
  replacement turns it into \<open>a'\<close> and goes on behind it.
\<close>

definition passes :: "string \<Rightarrow> string \<Rightarrow> bool" where
  "passes a a' = (\<forall>rest. strip_numeric_quotes (a @ rest) = a' @ strip_numeric_quotes rest)"

definition bool_text :: "bool \<Rightarrow> string" where
  "bool_text b = (if b then ''true'' else ''false'')"

definition clip_text :: "Clip \<Rightarrow> string" where
  \<open>clip_text clip = ''{"index":'' @ number_text (clip_index clip) @
     '',"duration":'' @ number_text (clip_duration clip) @
     '',"required":'' @ bool_text (clip_required clip) @ ''}''\<close>

definition transition_text :: "Transition \<Rightarrow> string" where
  \<open>transition_text transition =
     ''{"type":'' @ strip_numeric_quotes (quote (trans_type transition) @ '','') @
     ''"duration":'' @ number_text (trans_duration transition) @
     '',"between_clips":['' @ number_text (fst (between_clips transition)) @ '','' @
     number_text (snd (between_clips transition)) @ '']}''\<close>

definition canonical_export :: "OutputJson \<Rightarrow> string" where
  \<open>canonical_export j =
     ''{"name":'' @ strip_numeric_quotes (quote (name j) @ '','') @
     ''"clips":['' @ join '','' (map clip_text (clips j)) @
     ''],"transitions":['' @ join '','' (map transition_text (transitions j)) @
     ''],"logo_outro":'' @ bool_text (logo_outro j) @
     '',"music_file":'' @ strip_numeric_quotes (quote (music_file j) @ '','') @
     ''"fade_in_duration":'' @ number_text (fade_in_duration j) @
     '',"fade_out_duration":'' @ number_text (fade_out_duration j) @ ''}''\<close>

definition key :: "string \<Rightarrow> string" where
  "key k = quote k @ '':''"

text \<open>
  \<open>JSON.parse\<close> on a number literal of the JSON grammar without exponent part:
  an optional minus, an integer part without leading zero, an optional fraction.
\<close>

definition digit_value :: "char \<Rightarrow> nat" where
  "digit_value c = of_char c - 48"

definition parse_nat :: "string \<Rightarrow> nat" where
  "parse_nat ds = foldl (\<lambda>a c. 10 * a + digit_value c) 0 ds"

definition decode_number :: "string \<Rightarrow> jsnumber option" where
  "decode_number s =
    (let (sgn, r0) = opt_minus s; (d1, r1) = split_digits r0;
         sg = (if sgn = [] then 1 else - 1)
     in if d1 = [] \<or> (1 < length d1 \<and> hd d1 = CHR ''0'') then None
        else if r1 = [] then Some (Dec (sg * int (parse_nat d1)) 0)
        else (case expect (CHR ''.'') r1 of
           None \<Rightarrow> None
         | Some r2 \<Rightarrow>
            (let (d2, r3) = split_digits r2
             in if d2 = [] \<or> r3 \<noteq> [] then None
                else Some (Dec (sg * int (parse_nat (d1 @ d2))) (length d2)))))"

text \<open>
  The whole of \<open>s\<close> matches \<open>-?\d+\.\d+\<close>: behind an opening quote, the
  expression matches \<open>s\<close> followed by the closing quote, and captures \<open>s\<close>.
\<close>

definition matches_decimal :: "string \<Rightarrow> bool" where
  "matches_decimal s = (match_decimal (s @ [CHR 0x22]) = Some (s, []))"

definition leading_zero :: "string \<Rightarrow> bool" where
  "leading_zero s = (let d1 = fst (split_digits (snd (opt_minus s)))
     in 1 < length d1 \<and> hd d1 = CHR ''0'')"

definition numeric_name_json :: OutputJson where
  "numeric_name_json = (sample_json ''1.5'' 2)\<lparr>music_file := ''-20.25''\<rparr>"

text \<open>
  \<open>generateAndDownloadCSV\<close>: nothing for an empty list; otherwise the file that is
  offered for download, with the time stamp of the call in its name.
\<close>

fun cleanMarkdown :: "string \<Rightarrow> string" where
  "cleanMarkdown (c1 # c2 # cs) =
     (if c1 = CHR ''*'' \<and> c2 = CHR ''*'' then cleanMarkdown cs else c1 # cleanMarkdown (c2 # cs))"
| "cleanMarkdown cs = cs"

definition escapeCSV :: "string \<Rightarrow> string" where
  "escapeCSV v =
    (if CHR '','' \<in> set v \<or> CHR 0x22 \<in> set v \<or> CHR 0x0A \<in> set v
     then CHR 0x22 # concat (map (\<lambda>c. if c = CHR 0x22 then [CHR 0x22, CHR 0x22] else [c]) v) @ [CHR 0x22]
     else v)"

definition headers :: "string list" where
  "headers = [''Filename'', ''Clips Count'', ''JSON Output'', ''Vibe Description'',
     ''Image Prompt'', ''Video Prompt'']"

definition csv_row :: "VideoResult \<Rightarrow> string list" where
  "csv_row result =
    (let imagePromptsFormatted =
           (case image_prompts (jsonData result) of
              None \<Rightarrow> []
            | Some prompts \<Rightarrow> join [CHR 0x0A, CHR 0x0A]
                (map (\<lambda>(idx, prompt). ''Frame '' @ digits (idx + 1) @ '': '' @ cleanMarkdown prompt)
                   (enumerate 0 prompts)));
         cleanedVibe = (case vibe_description (jsonData result) of
              None \<Rightarrow> [] | Some v \<Rightarrow> if v = [] then [] else cleanMarkdown v);
         cleanedVideoPrompt = (case video_prompt (jsonData result) of
              None \<Rightarrow> [] | Some v \<Rightarrow> if v = [] then [] else cleanMarkdown v)
     in [videoName result, digits (length (clips (jsonData result))),
         jsonStringWithDecimals (jsonData result), cleanedVibe, imagePromptsFormatted,
         cleanedVideoPrompt])"

record Download =
  dl_filename :: string
  dl_content :: string

definition generateAndDownloadCSV :: "string \<Rightarrow> VideoResult list \<Rightarrow> string \<Rightarrow> Download option" where
  "generateAndDownloadCSV timestamp resultsToExport filenameSuffix =
    (if length resultsToExport = 0 then None
     else Some \<lparr>dl_filename = ''video-analysis-batch-'' @ timestamp @ filenameSuffix @ ''.csv'',
        dl_content = join [CHR 0x0A] (join '','' (map escapeCSV headers) #
           map (\<lambda>row. join '','' (map escapeCSV row)) (map csv_row resultsToExport))\<rparr>)"

text \<open>
  The downloads that a sequence of \<open>onAutoSaveCSV\<close> calls produces, the callback being
  \<open>generateAndDownloadCSV\<close>.
\<close>

definition downloads :: "string \<Rightarrow> (VideoResult list \<times> string) list \<Rightarrow> Download list" where
  "downloads timestamp calls =
     List.map_filter (\<lambda>(rs, suffix). generateAndDownloadCSV timestamp rs suffix) calls"

definition catch_state :: BatchState where
  "catch_state = initial_state\<lparr>analyzedResults := [two_scene_video], isAnalyzing := True\<rparr>"

section \<open>Properties of the batch run\<close>

lemmas sample_defs = sample_scene_def sample_json_def sample_video_def ok_script_def
  soft_fail_script_def scenario_videos_def scenario_env_def soft_env_def

lemma process_video_allAnalyses:
  "allAnalyses (process_video k n v sc st) = allAnalyses st @ success_of (item_outcome v sc)"
  by (cases "run_stages v sc"; cases "snd (run_stages v sc)")
     (simp_all add: process_video_def item_outcome_def record_failure_def store_analysis_def Let_def)

lemma process_video_failures:
  "failures (process_video k n v sc st) = failures st @ failure_of v (item_outcome v sc)"
  by (cases "run_stages v sc"; cases "snd (run_stages v sc)")
     (auto simp add: process_video_def item_outcome_def record_failure_def store_analysis_def Let_def split: thrown.splits)


lemma process_video_processedCount:
  "processedCount (process_video k n v sc st) = k"
  by (cases "run_stages v sc"; cases "snd (run_stages v sc)")
     (simp_all add: process_video_def item_outcome_def record_failure_def store_analysis_def Let_def)




lemma batch_loop_processedCount:
  "processedCount (batch_loop env n i vs st) = (if vs = [] then processedCount st else i + length vs)"
  by (induction vs arbitrary: i st) (simp_all add: process_video_processedCount)

lemma length_outcomes [simp]: "length (outcomes env i vs) = length vs"
  by (induction vs arbitrary: i) simp_all



lemma process_video_requests:
  "requests (process_video k n v sc st) = requests st @ map (\<lambda>s. (s, v)) (fst (run_stages v sc))"
  by (cases "run_stages v sc"; cases "snd (run_stages v sc)")
     (simp_all add: process_video_def record_failure_def store_analysis_def Let_def)

lemma batch_loop_requests:
  "requests (batch_loop env n i vs st) = requests st @ requests_of env i vs"
  by (induction vs arbitrary: i st) (simp_all add: process_video_requests)




lemma requests_of_eligible:
  "\<forall>v \<in> set vs. P v \<Longrightarrow> \<forall>p \<in> set (requests_of env i vs). P (snd p)"
  by (induction vs arbitrary: i) auto



lemma handleBatchAnalyze_unfold:
  assumes "trim apiKey \<noteq> []" "filter eligible results \<noteq> []"
  shows "handleBatchAnalyze apiKey env results st =
    (let vs = filter eligible results;
         st1 = st\<lparr>isAnalyzing := True, error := None, isComplete := False,
                    processedCount := 0, progress := 0, failedVideos := [],
                    analyzedResults := [], failures := [], allAnalyses := [],
                    progressEvents := progressEvents st @ [0]\<rparr>;
         st2 = batch_loop env (length vs) 0 vs st1
     in st2\<lparr>progress := 100, progressEvents := progressEvents st2 @ [100],
            completeCalls := completeCalls st2 @ [allAnalyses st2],
            isComplete := True, isAnalyzing := False\<rparr>)"
  using assms by (simp add: handleBatchAnalyze_def Let_def)




lemma trim_key: "trim ''key'' \<noteq> []"
  by (simp add: trim_def is_space_def)





lemma filter_eligible_cong_ineligible:
  "\<not> eligible r \<Longrightarrow> filter eligible (xs @ r # ys) = filter eligible (xs @ ys)"
  by simp

lemma handleBatchAnalyze_requests:
  "\<exists>new. requests (handleBatchAnalyze apiKey env results st) = requests st @ new
     \<and> (\<forall>p \<in> set new. eligible (snd p))"
proof (cases "trim apiKey = [] \<or> filter eligible results = []")
  case True
  then show ?thesis by (auto simp: handleBatchAnalyze_def Let_def)
next
  case False
  then have "requests (handleBatchAnalyze apiKey env results st) =
      requests st @ requests_of env 0 (filter eligible results)"
    by (simp add: handleBatchAnalyze_unfold Let_def batch_loop_requests)
  moreover have "\<forall>p \<in> set (requests_of env 0 (filter eligible results)). eligible (snd p)"
    by (rule requests_of_eligible) simp
  ultimately show ?thesis by blast
qed

lemma autoStart_requests:
  "\<exists>new. requests (autoStart apiKey env results st) = requests st @ new
     \<and> (\<forall>p \<in> set new. eligible (snd p))"
proof (cases "autoStart apiKey env results st = handleBatchAnalyze apiKey env results st")
  case True
  then show ?thesis using handleBatchAnalyze_requests by simp
next
  case False
  then have "requests (autoStart apiKey env results st) = requests st"
    by (auto simp: autoStart_def split: if_splits)
  then show ?thesis by simp
qed

text \<open>
  Claim C6. An artifact without scenes, with an empty scene list or with an empty file is
  not eligible: the run over a batch that contains it is the run over the batch without
  it (same total \<open>N\<close>, same accumulators, same progress), and no stage request made by
  \<open>handleBatchAnalyze\<close> or by the auto-start effect carries it.
\<close>

theorem ineligible_excluded:
  assumes "scenes (jsonData r) = None \<or> scenes (jsonData r) = Some [] \<or> file_size (vr_file r) = 0"
  shows "\<not> eligible r
     \<and> length (filter eligible (xs @ r # ys)) = length (filter eligible (xs @ ys))
     \<and> handleBatchAnalyze apiKey env (xs @ r # ys) st = handleBatchAnalyze apiKey env (xs @ ys) st
     \<and> (\<forall>p \<in> set (drop (length (requests st))
            (requests (handleBatchAnalyze apiKey env (xs @ r # ys) st))). snd p \<noteq> r)
     \<and> (\<forall>p \<in> set (drop (length (requests st))
            (requests (autoStart apiKey env (xs @ r # ys) st))). snd p \<noteq> r)"
proof -
  have ne: "\<not> eligible r" using assms by (auto simp: eligible_def split: option.splits)
  then have f: "filter eligible (xs @ r # ys) = filter eligible (xs @ ys)" by simp
  have eq: "handleBatchAnalyze apiKey env (xs @ r # ys) st = handleBatchAnalyze apiKey env (xs @ ys) st"
    by (simp only: handleBatchAnalyze_def f)
  obtain new where new: "requests (handleBatchAnalyze apiKey env (xs @ r # ys) st) = requests st @ new"
      "\<forall>p \<in> set new. eligible (snd p)"
    using handleBatchAnalyze_requests by blast
  have rq: "\<forall>p \<in> set (drop (length (requests st))
            (requests (handleBatchAnalyze apiKey env (xs @ r # ys) st))). snd p \<noteq> r"
    using new ne by auto
  obtain new' where new': "requests (autoStart apiKey env (xs @ r # ys) st) = requests st @ new'"
      "\<forall>p \<in> set new'. eligible (snd p)"
    using autoStart_requests by blast
  have rq': "\<forall>p \<in> set (drop (length (requests st))
            (requests (autoStart apiKey env (xs @ r # ys) st))). snd p \<noteq> r"
    using new' ne by auto
  have fl: "length (filter eligible (xs @ r # ys)) = length (filter eligible (xs @ ys))"
    by (simp only: f)
  from ne fl eq rq rq' show ?thesis by (intro conjI)
qed

theorem ineligible_excluded_witness:
  "file_size (vr_file history_video) = 0 \<and>
   handleBatchAnalyze ''key'' scenario_env ([sample_video ''id-1'' ''alpha'' 2 1024] @ history_video #
       [sample_video ''id-2'' ''beta'' 3 2048, sample_video ''id-3'' ''gamma'' 1 512]) initial_state
   = handleBatchAnalyze ''key'' scenario_env scenario_videos initial_state"
proof -
  have h: "file_size (vr_file history_video) = 0"
    by (simp add: history_video_def sample_video_def)
  then have h': "scenes (jsonData history_video) = None \<or> scenes (jsonData history_video) = Some []
     \<or> file_size (vr_file history_video) = 0" by simp
  show ?thesis
    using h ineligible_excluded [OF h', of "[sample_video ''id-1'' ''alpha'' 2 1024]"
        "[sample_video ''id-2'' ''beta'' 3 2048, sample_video ''id-3'' ''gamma'' 1 512]"
        "''key''" scenario_env initial_state]
    by (simp add: scenario_videos_def)
qed

lemmas run_defs = handleBatchAnalyze_def process_video_def run_stages_def store_analysis_def
  record_failure_def initial_state_def eligible_def trim_def is_space_def Let_def

lemma failed_item_no_checkpoint:
  "is_failure (item_outcome v sc) \<Longrightarrow>
     autoSaveCalls (process_video k n v sc st) = autoSaveCalls st"
  by (cases "run_stages v sc"; cases "snd (run_stages v sc)")
     (simp_all add: process_video_def item_outcome_def record_failure_def)

lemma completed_item_checkpoint:
  "\<not> is_failure (item_outcome v sc) \<Longrightarrow>
     map snd (autoSaveCalls (process_video k n v sc st)) = map snd (autoSaveCalls st) @
       (if k mod 5 = 0 \<or> k = n then [''-progress-'' @ digits k] else [])"
  by (cases "run_stages v sc"; cases "snd (run_stages v sc)")
     (simp_all add: process_video_def item_outcome_def store_analysis_def Let_def)

text \<open>
  Claim C1. The claim asks for a checkpoint export after every fifth processed item and
  after the last one, whether that item completed or failed. The export call is made
  on the success path only. In a batch of five where items 1 to 4 complete and item 5
  is a soft failure, no export is made at all, although four enrichments have been
  accumulated; a single failing item gives no export either; when all five complete
  there is the one export tagged \<open>-progress-5\<close>.
\<close>

theorem checkpoint_skipped_when_fifth_fails:
  "length (filter eligible five_videos) = 5 \<and>
   autoSaveCalls (handleBatchAnalyze ''key'' (\<lambda>i. soft_fail_script) [two_scene_video] initial_state)
     = [] \<and>
   autoSaveCalls (handleBatchAnalyze ''key'' last_fails_env five_videos initial_state) = [] \<and>
   length (analyzedResults (handleBatchAnalyze ''key'' last_fails_env five_videos initial_state)) = 4 \<and>
   length (failures (handleBatchAnalyze ''key'' last_fails_env five_videos initial_state)) = 1 \<and>
   processedCount (handleBatchAnalyze ''key'' last_fails_env five_videos initial_state) = 5 \<and>
   map snd (autoSaveCalls (handleBatchAnalyze ''key'' (\<lambda>i. ok_script 2) five_videos initial_state))
     = [''-progress-5'']"
  by (simp add: run_defs sample_defs five_videos_def last_fails_env_def digits.simps)

text \<open>
  Claim C2, as stated, fails: for an artifact with two scenes, a 2xx image-prompts
  response with one prompt is accepted. The item is not recorded as failed, the
  video-prompt stage is requested, and the one-element sequence is stored.
\<close>

theorem short_image_prompts_accepted:
  "map_option length (scenes (jsonData two_scene_video)) = Some 2 \<and>
   image_prompts_response short_script = Body (Some [''a product on a table'']) \<and>
   failures (handleBatchAnalyze ''key'' (\<lambda>i. short_script) [two_scene_video] initial_state) = [] \<and>
   map imagePrompts (allAnalyses
     (handleBatchAnalyze ''key'' (\<lambda>i. short_script) [two_scene_video] initial_state))
     = [Some [''a product on a table'']] \<and>
   (VideoPromptStage, two_scene_video)
     \<in> set (requests (handleBatchAnalyze ''key'' (\<lambda>i. short_script) [two_scene_video] initial_state))"
  by (simp add: run_defs sample_defs two_scene_video_def short_script_def)

text \<open>
  Claim C2, amended. After a clean vibe extraction, a 2xx image-prompts response is
  accepted whatever the length of the prompt sequence: the video-prompt stage is
  requested, and when it succeeds the sequence is stored as returned, the item being
  added to the successes and not to the failures. Only a rejected fetch, a non-2xx
  status or an unreadable body at the image-prompts stage fails the item there, and
  then the video-prompt stage is not requested.
\<close>

theorem image_prompts_length_unchecked:
  assumes "vibe_response sc = Body vd" and "\<not> failed vd" and "truthy (vibe_extraction vd)"
  shows "(\<forall>prompts. image_prompts_response sc = Body prompts \<longrightarrow>
            VideoPromptStage \<in> set (fst (run_stages v sc)))
     \<and> (\<forall>prompts vp. image_prompts_response sc = Body prompts \<and> video_prompt_response sc = Body vp \<longrightarrow>
            allAnalyses (process_video k n v sc st) = allAnalyses st @
              [\<lparr>resultId = vr_id v, vibe = the (vibe_extraction vd),
                imagePrompts = prompts, videoPrompt = vp\<rparr>]
            \<and> failures (process_video k n v sc st) = failures st)
     \<and> ((\<forall>prompts. image_prompts_response sc \<noteq> Body prompts) \<longrightarrow>
            VideoPromptStage \<notin> set (fst (run_stages v sc))
            \<and> is_failure (item_outcome v sc)
            \<and> allAnalyses (process_video k n v sc st) = allAnalyses st
            \<and> length (failures (process_video k n v sc st)) = Suc (length (failures st)))"
proof (intro conjI allI impI)
  fix prompts assume "image_prompts_response sc = Body prompts"
  with assms show "VideoPromptStage \<in> set (fst (run_stages v sc))"
    by (simp add: run_stages_def split: fetched.splits)
next
  fix prompts vp
  assume a: "image_prompts_response sc = Body prompts \<and> video_prompt_response sc = Body vp"
  with assms have o: "item_outcome v sc = Completed \<lparr>resultId = vr_id v, vibe = the (vibe_extraction vd),
                imagePrompts = prompts, videoPrompt = vp\<rparr>"
    by (simp add: item_outcome_def run_stages_def)
  show "allAnalyses (process_video k n v sc st) = allAnalyses st @
              [\<lparr>resultId = vr_id v, vibe = the (vibe_extraction vd),
                imagePrompts = prompts, videoPrompt = vp\<rparr>]"
    by (simp add: process_video_allAnalyses o)
  show "failures (process_video k n v sc st) = failures st"
    by (simp add: process_video_failures o)
next
  assume a: "\<forall>prompts. image_prompts_response sc \<noteq> Body prompts"
  with assms show "VideoPromptStage \<notin> set (fst (run_stages v sc))"
    by (cases "image_prompts_response sc") (simp_all add: run_stages_def)
  from a assms show f: "is_failure (item_outcome v sc)"
    by (cases "image_prompts_response sc") (simp_all add: item_outcome_def run_stages_def)
  then show "allAnalyses (process_video k n v sc st) = allAnalyses st"
    by (cases "item_outcome v sc") (simp_all add: process_video_allAnalyses)
  from f show "length (failures (process_video k n v sc st)) = Suc (length (failures st))"
    by (cases "item_outcome v sc"; cases "case item_outcome v sc of Threw t \<Rightarrow> t | _ \<Rightarrow> NonError")
       (auto simp add: process_video_failures split: thrown.splits)
qed

theorem image_prompts_length_unchecked_witness:
  "vibe_response short_script =
     Body \<lparr>failed = False, vibe_extraction = Some ''warm and minimal'', vibe_error = None\<rparr> \<and>
   image_prompts_response short_script = Body (Some [''a product on a table'']) \<and>
   VideoPromptStage \<in> set (fst (run_stages two_scene_video short_script)) \<and>
   allAnalyses (process_video 1 1 two_scene_video short_script initial_state) =
     allAnalyses initial_state @ [\<lparr>resultId = vr_id two_scene_video, vibe = ''warm and minimal'',
       imagePrompts = Some [''a product on a table''],
       videoPrompt = Some ''a slow pan over the product''\<rparr>] \<and>
   image_prompts_response (scenario_env 1) = NotOk (Some ''Service Unavailable'') \<and>
   VideoPromptStage \<notin> set (fst (run_stages two_scene_video (scenario_env 1)))"
proof -
  let ?vd = "\<lparr>failed = False, vibe_extraction = Some ''warm and minimal'', vibe_error = None\<rparr>"
  have v1: "vibe_response short_script = Body ?vd"
    by (simp add: short_script_def ok_script_def)
  have i1: "image_prompts_response short_script = Body (Some [''a product on a table''])"
    by (simp add: short_script_def ok_script_def)
  have p1: "video_prompt_response short_script = Body (Some ''a slow pan over the product'')"
    by (simp add: short_script_def ok_script_def)
  have v2: "vibe_response (scenario_env 1) = Body ?vd"
    by (simp add: scenario_env_def ok_script_def)
  have i2: "image_prompts_response (scenario_env 1) = NotOk (Some ''Service Unavailable'')"
    by (simp add: scenario_env_def ok_script_def)
  have a: "\<not> failed ?vd" and b: "truthy (vibe_extraction ?vd)" by simp_all
  note t1 = image_prompts_length_unchecked [OF v1 a b, of two_scene_video 1 1 initial_state]
  note t2 = image_prompts_length_unchecked [OF v2 a b, of two_scene_video 1 1 initial_state]
  have "VideoPromptStage \<in> set (fst (run_stages two_scene_video short_script))"
    using t1 i1 by blast
  moreover have "allAnalyses (process_video 1 1 two_scene_video short_script initial_state) =
     allAnalyses initial_state @ [\<lparr>resultId = vr_id two_scene_video, vibe = ''warm and minimal'',
       imagePrompts = Some [''a product on a table''],
       videoPrompt = Some ''a slow pan over the product''\<rparr>]"
    using t1 i1 p1 by simp
  moreover have "VideoPromptStage \<notin> set (fst (run_stages two_scene_video (scenario_env 1)))"
    using t2 i2 by simp
  ultimately show ?thesis using v1 i1 i2 by simp
qed

section \<open>Progress percentage\<close>

lemma round_half_even_of_int [simp]: "round_half_even (of_int n) = n"
  by (simp add: round_half_even_def)

lemma round_half_even_bounds:
  "\<lfloor>m\<rfloor> \<le> round_half_even m \<and> round_half_even m \<le> \<lfloor>m\<rfloor> + 1"
  by (simp add: round_half_even_def Let_def)

lemma round_half_even_mono:
  assumes "x \<le> y"
  shows "round_half_even x \<le> round_half_even y"
proof (cases "\<lfloor>x\<rfloor> = \<lfloor>y\<rfloor>")
  case True
  from assms have "x - of_int \<lfloor>x\<rfloor> \<le> y - of_int \<lfloor>x\<rfloor>" by simp
  with True show ?thesis
    by (auto simp: round_half_even_def Let_def)
next
  case False
  with assms have "\<lfloor>x\<rfloor> < \<lfloor>y\<rfloor>" using floor_mono [OF assms] by linarith
  then have "\<lfloor>x\<rfloor> + 1 \<le> \<lfloor>y\<rfloor>" by simp
  with round_half_even_bounds [of x] round_half_even_bounds [of y] show ?thesis by linarith
qed

lemma quotient_of_pos:
  assumes "0 < q" and "quotient_of q = (a, b)"
  shows "0 < a" "0 < b" "q = of_int a / of_int b"
proof -
  show b: "0 < b" using assms(2) quotient_of_denom_pos by blast
  show q: "q = of_int a / of_int b" using assms(2) quotient_of_div by blast
  show "0 < a" using assms(1) b q by (simp add: zero_less_divide_iff)
qed

lemma binade_bounds:
  assumes "0 < q"
  shows "power_int 2 (binade q) \<le> q \<and> q < power_int 2 (binade q + 1)"
proof -
  obtain a b where ab: "quotient_of q = (a, b)" by (cases "quotient_of q")
  note p = quotient_of_pos [OF assms ab]
  define la where "la = bitlen a"
  define lb where "lb = bitlen b"
  define d where "d = la - lb"
  have "bitlen a \<noteq> 0" using p(1) by (metis bitlen_eq_zero_iff not_le)
  then have la1: "1 \<le> la" using bitlen_nonneg [of a] unfolding la_def by linarith
  have "bitlen b \<noteq> 0" using p(2) by (metis bitlen_eq_zero_iff not_le)
  then have lb1: "1 \<le> lb" using bitlen_nonneg [of b] unfolding lb_def by linarith
  have ba: "2 ^ nat (la - 1) \<le> a" "a < 2 ^ nat la"
    using bitlen_bounds [OF p(1)] by (simp_all add: la_def)
  have bb: "2 ^ nat (lb - 1) \<le> b" "b < 2 ^ nat lb"
    using bitlen_bounds [OF p(2)] by (simp_all add: lb_def)
  have ra: "power_int 2 (la - 1) \<le> (of_int a :: rat)" "(of_int a :: rat) < power_int 2 la"
  proof -
    have "(of_int (2 ^ nat (la - 1)) :: rat) \<le> of_int a" using ba(1) by (simp only: of_int_le_iff)
    then show "power_int 2 (la - 1) \<le> (of_int a :: rat)" using la1 by (simp add: power_int_def)
    have "(of_int a :: rat) < of_int (2 ^ nat la)" using ba(2) by (simp only: of_int_less_iff)
    then show "(of_int a :: rat) < power_int 2 la" using la1 by (simp add: power_int_def)
  qed
  have rb: "power_int 2 (lb - 1) \<le> (of_int b :: rat)" "(of_int b :: rat) < power_int 2 lb"
  proof -
    have "(of_int (2 ^ nat (lb - 1)) :: rat) \<le> of_int b" using bb(1) by (simp only: of_int_le_iff)
    then show "power_int 2 (lb - 1) \<le> (of_int b :: rat)" using lb1 by (simp add: power_int_def)
    have "(of_int b :: rat) < of_int (2 ^ nat lb)" using bb(2) by (simp only: of_int_less_iff)
    then show "(of_int b :: rat) < power_int 2 lb" using lb1 by (simp add: power_int_def)
  qed
  have bpos: "(0::rat) < of_int b" using p(2) by simp
  have upper: "q < power_int 2 (d + 1)"
  proof -
    have "(of_int a :: rat) < power_int 2 la" by (rule ra(2))
    also have "\<dots> = power_int 2 (d + 1) * power_int (2::rat) (lb - 1)"
      by (simp add: d_def flip: power_int_add)
    also have "\<dots> \<le> power_int 2 (d + 1) * of_int b"
      using rb(1) by (simp add: mult_left_mono)
    finally show ?thesis using bpos by (simp add: p(3) pos_divide_less_eq)
  qed
  have lower: "power_int 2 (d - 1) < q"
  proof -
    have "power_int 2 (d - 1) * (of_int b :: rat) < power_int 2 (d - 1) * power_int (2::rat) lb"
      using rb(2) by (simp add: mult_strict_left_mono)
    also have "\<dots> = power_int 2 (la - 1)"
      by (simp add: d_def flip: power_int_add)
    also have "\<dots> \<le> of_int a" by (rule ra(1))
    finally show ?thesis using bpos by (simp add: p(3) pos_less_divide_eq)
  qed
  have test: "(if 0 \<le> d then b * 2 ^ nat d \<le> a else b \<le> a * 2 ^ nat (- d))
      \<longleftrightarrow> power_int 2 d \<le> q"
  proof (cases "0 \<le> d")
    case True
    have "(b * 2 ^ nat d \<le> a) \<longleftrightarrow> ((of_int (b * 2 ^ nat d) :: rat) \<le> of_int a)"
      by (simp only: of_int_le_iff)
    also have "\<dots> \<longleftrightarrow> (power_int 2 d * of_int b \<le> (of_int a :: rat))"
      using True by (simp add: power_int_def mult.commute)
    also have "\<dots> \<longleftrightarrow> power_int 2 d \<le> q"
      using bpos by (simp add: p(3) pos_le_divide_eq)
    finally show ?thesis using True by simp
  next
    case False
    have "(b \<le> a * 2 ^ nat (- d)) \<longleftrightarrow> ((of_int b :: rat) \<le> of_int (a * 2 ^ nat (- d)))"
      by (simp only: of_int_le_iff)
    also have "\<dots> \<longleftrightarrow> ((of_int b :: rat) \<le> of_int a * power_int 2 (- d))"
      using False by (simp add: power_int_def)
    also have "\<dots> \<longleftrightarrow> (power_int 2 d * of_int b \<le> (of_int a :: rat))"
      by (simp add: power_int_minus field_simps)
    also have "\<dots> \<longleftrightarrow> power_int 2 d \<le> q"
      using bpos by (simp add: p(3) pos_le_divide_eq)
    finally show ?thesis using False by simp
  qed
  have bin0: "binade q = (if 0 \<le> d then (if b * 2 ^ nat d \<le> a then d else d - 1)
     else (if b \<le> a * 2 ^ nat (- d) then d else d - 1))"
    by (simp add: binade_def ab Let_def d_def la_def lb_def)
  have bin: "binade q = (if power_int 2 d \<le> q then d else d - 1)"
    using test by (cases "0 \<le> d") (simp_all add: bin0)
  show ?thesis
  proof (cases "power_int 2 d \<le> q")
    case True
    with bin upper show ?thesis by simp
  next
    case False
    with bin lower show ?thesis by simp
  qed
qed

lemma binade_unique:
  assumes "0 < q" and "power_int 2 e \<le> q" and "q < power_int 2 (e + 1)"
  shows "binade q = e"
proof (rule ccontr)
  assume ne: "binade q \<noteq> e"
  note b = binade_bounds [OF assms(1)]
  show False
  proof (cases "binade q < e")
    case True
    then have "power_int (2::rat) (binade q + 1) \<le> power_int 2 e"
      by (intro power_int_increasing) simp_all
    with b assms(2) show False by linarith
  next
    case False
    with ne have "e + 1 \<le> binade q" by simp
    then have "power_int (2::rat) (e + 1) \<le> power_int 2 (binade q)"
      by (intro power_int_increasing) simp_all
    with b assms(3) show False by linarith
  qed
qed

lemma binade_mono:
  assumes "0 < x" and "x \<le> y"
  shows "binade x \<le> binade y"
proof (rule ccontr)
  assume "\<not> binade x \<le> binade y"
  then have "binade y + 1 \<le> binade x" by simp
  then have "power_int (2::rat) (binade y + 1) \<le> power_int 2 (binade x)"
    by (intro power_int_increasing) simp_all
  moreover have "0 < y" using assms by simp
  ultimately show False
    using binade_bounds [OF assms(1)] binade_bounds [OF \<open>0 < y\<close>] assms(2) by linarith
qed

lemma round_double_bounds:
  assumes "0 < q"
  shows "power_int 2 (binade q) \<le> round_double q \<and> round_double q \<le> power_int 2 (binade q + 1)"
proof -
  define e where "e = binade q"
  define u :: rat where "u = power_int 2 (e - 52)"
  have upos: "0 < u" by (simp add: u_def)
  have rd: "round_double q = of_int (round_half_even (q / u)) * u"
    using assms by (simp add: round_double_def u_def e_def Let_def)
  have lo: "power_int 2 e = of_int (2 ^ 52) * u"
    by (simp add: u_def power_int_diff)
  have hi: "power_int 2 (e + 1) = of_int (2 ^ 53) * u"
    by (simp add: u_def power_int_diff power_int_add)
  have "of_int (2 ^ 52) \<le> q / u"
    using binade_bounds [OF assms] upos by (simp add: lo e_def [symmetric] pos_le_divide_eq)
  then have "round_half_even (of_int (2 ^ 52)) \<le> round_half_even (q / u)"
    by (rule round_half_even_mono)
  then have a: "(2 ^ 52 :: int) \<le> round_half_even (q / u)"
    by (simp only: round_half_even_of_int)
  have "q / u \<le> of_int (2 ^ 53)"
    using binade_bounds [OF assms] upos by (simp add: hi e_def [symmetric] pos_divide_le_eq)
  then have "round_half_even (q / u) \<le> round_half_even (of_int (2 ^ 53))"
    by (rule round_half_even_mono)
  then have b: "round_half_even (q / u) \<le> (2 ^ 53 :: int)"
    by (simp only: round_half_even_of_int)
  have "of_int (2 ^ 52) * u \<le> of_int (round_half_even (q / u)) * u"
    using a upos by (intro mult_right_mono) (simp_all only: of_int_le_iff less_imp_le)
  moreover have "of_int (round_half_even (q / u)) * u \<le> of_int (2 ^ 53) * u"
    using b upos by (intro mult_right_mono) (simp_all only: of_int_le_iff less_imp_le)
  ultimately show ?thesis
    unfolding rd e_def [symmetric] lo hi by simp
qed

lemma round_double_mono_pos:
  assumes "0 < x" and "x \<le> y"
  shows "round_double x \<le> round_double y"
proof -
  have ypos: "0 < y" using assms by simp
  show ?thesis
  proof (cases "binade x = binade y")
    case True
    define u :: rat where "u = power_int 2 (binade y - 52)"
    have upos: "0 < u" by (simp add: u_def)
    have "x / u \<le> y / u" using assms(2) upos by (simp add: divide_right_mono)
    then have "round_half_even (x / u) \<le> round_half_even (y / u)"
      by (rule round_half_even_mono)
    then have "of_int (round_half_even (x / u)) * u \<le> of_int (round_half_even (y / u)) * u"
      using upos by (intro mult_right_mono) (simp_all only: of_int_le_iff less_imp_le)
    then show ?thesis
      using assms(1) ypos True by (simp add: round_double_def Let_def u_def)
  next
    case False
    with binade_mono [OF assms] have "binade x + 1 \<le> binade y" by simp
    then have "power_int (2::rat) (binade x + 1) \<le> power_int 2 (binade y)"
      by (intro power_int_increasing) simp_all
    with round_double_bounds [OF assms(1)] round_double_bounds [OF ypos]
    show ?thesis by linarith
  qed
qed

lemma round_double_mono:
  assumes "0 \<le> x" and "x \<le> y"
  shows "round_double x \<le> round_double y"
proof (cases "x = 0")
  case True
  show ?thesis
  proof (cases "y = 0")
    case True
    with \<open>x = 0\<close> show ?thesis by simp
  next
    case False
    with assms True have "0 < y" by simp
    from round_double_bounds [OF this] have "0 \<le> round_double y"
      by (meson order_trans zero_le_power_int zero_le_numeral)
    with True show ?thesis by (simp add: round_double_def)
  qed
next
  case False
  with assms have "0 < x" by simp
  then show ?thesis using assms(2) by (rule round_double_mono_pos)
qed

lemma round_double_1: "round_double 1 = 1"
  by code_simp

lemma round_double_100: "round_double 100 = 100"
  by code_simp

lemma progress_pct_mono:
  assumes "k \<le> k'"
  shows "progress_pct k n \<le> progress_pct k' n"
proof -
  have "(of_nat k :: rat) / of_nat n \<le> of_nat k' / of_nat n"
    using assms by (simp add: divide_right_mono)
  then have a: "js_div k n \<le> js_div k' n"
    unfolding js_div_def by (intro round_double_mono) simp_all
  have "0 \<le> js_div k n"
    unfolding js_div_def using round_double_mono [of 0 "of_nat k / of_nat n"]
    by (simp add: round_double_def)
  then have "js_mul (js_div k n) 100 \<le> js_mul (js_div k' n) 100"
    unfolding js_mul_def using a by (intro round_double_mono) simp_all
  then show ?thesis
    unfolding progress_pct_def by (intro nat_mono floor_mono)
qed

lemma progress_pct_full:
  assumes "0 < n"
  shows "progress_pct n n = 100"
  using assms by (simp add: progress_pct_def js_div_def js_mul_def round_double_1 round_double_100)

lemma progress_pct_le_100:
  assumes "k \<le> n" and "0 < n"
  shows "progress_pct k n \<le> 100"
  using progress_pct_mono [OF assms(1), of n] progress_pct_full [OF assms(2)] by simp

lemma process_video_progress:
  "progressEvents (process_video k n v sc st) = progressEvents st @ [progress_pct k n]"
  "progress (process_video k n v sc st) = progress_pct k n"
  by (cases "run_stages v sc"; cases "snd (run_stages v sc)";
      simp add: process_video_def record_failure_def store_analysis_def Let_def)+

lemma batch_loop_progressEvents:
  "progressEvents (batch_loop env n i vs st) =
     progressEvents st @ map (\<lambda>j. progress_pct (Suc (i + j)) n) [0 ..< length vs]"
proof (induction vs arbitrary: i st)
  case Nil
  then show ?case by simp
next
  case (Cons v vs)
  have "map (\<lambda>j. progress_pct (Suc (i + j)) n) [0 ..< length (v # vs)] =
      progress_pct (Suc i) n # map (\<lambda>j. progress_pct (Suc (Suc i + j)) n) [0 ..< length vs]"
    by (simp only: length_Cons map_upt_Suc add_0_right add_Suc_right add_Suc)
  then show ?case
    by (simp only: batch_loop.simps Cons.IH process_video_progress append_assoc append_Cons
        append_Nil Suc_eq_plus1 [symmetric])
qed

lemma sorted_progress:
  assumes "0 < n"
  shows "sorted (0 # map (\<lambda>j. progress_pct (Suc j) n) [0 ..< n] @ [100])"
proof -
  have "sorted (map (\<lambda>j. progress_pct (Suc j) n) [0 ..< n])"
    by (rule sorted_map_mono) (simp_all add: mono_on_def progress_pct_mono)
  moreover have "\<forall>x \<in> set (map (\<lambda>j. progress_pct (Suc j) n) [0 ..< n]). x \<le> 100"
    using assms by (auto intro: progress_pct_le_100)
  ultimately show ?thesis by (simp add: sorted_append)
qed

lemma handleBatchAnalyze_progress:
  assumes "trim apiKey \<noteq> []" and "0 < length (filter eligible results)"
  shows "let N = length (filter eligible results);
             st' = handleBatchAnalyze apiKey env results st
         in progressEvents st' =
              progressEvents st @ 0 # map (\<lambda>j. progress_pct (Suc j) N) [0 ..< N] @ [100]
            \<and> progress st' = 100 \<and> processedCount st' = N"
  using assms
  by (simp add: handleBatchAnalyze_unfold Let_def batch_loop_progressEvents batch_loop_processedCount)

text \<open>
  Claim C5, amended. In a run over \<open>N > 0\<close> eligible artifacts the values given to
  \<open>setProgress\<close> are \<open>0\<close>, then after the item at index \<open>j\<close> (processed count
  \<open>j + 1\<close>, completed or failed) the floor of the double-precision product
  \<open>((j + 1) / N) * 100\<close>, then \<open>100\<close>. This sequence is non-decreasing, the value
  after the last item is exactly \<open>100\<close>, and the run ends with progress \<open>100\<close> and
  processed count \<open>N\<close>.
\<close>

theorem progress_nondecreasing:
  assumes "trim apiKey \<noteq> []" and "0 < length (filter eligible results)"
  shows "let N = length (filter eligible results);
             st' = handleBatchAnalyze apiKey env results st
         in progressEvents st' =
              progressEvents st @ 0 # map (\<lambda>j. progress_pct (Suc j) N) [0 ..< N] @ [100]
            \<and> sorted (0 # map (\<lambda>j. progress_pct (Suc j) N) [0 ..< N] @ [100])
            \<and> progress_pct N N = 100
            \<and> progress st' = 100 \<and> processedCount st' = N"
  using handleBatchAnalyze_progress [OF assms, of env st] sorted_progress [OF assms(2)]
    progress_pct_full [OF assms(2)]
  by (simp add: Let_def)

lemma eligible_two_scene_video: "eligible two_scene_video"
  by (simp add: two_scene_video_def sample_video_def sample_json_def eligible_def)

text \<open>
  Claim C5, as stated, fails when its formula is read in exact arithmetic: in a batch
  of 50, after item 29 the progress is 57, while the floor of \<open>29 / 50 * 100\<close> is 58.
  The double nearest to \<open>29 / 50\<close> times \<open>100\<close> rounds to a double just below 58.
\<close>

theorem progress_not_exact_floor:
  "length (filter eligible fifty_videos) = 50 \<and>
   progressEvents (handleBatchAnalyze ''key'' (\<lambda>i. ok_script 2) fifty_videos initial_state) ! 29 = 57 \<and>
   \<lfloor>(29 :: rat) / 50 * 100\<rfloor> = 58"
proof -
  have f: "filter eligible fifty_videos = fifty_videos"
    by (simp add: fifty_videos_def eligible_two_scene_video)
  have l: "length fifty_videos = 50" by (simp add: fifty_videos_def)
  have p: "progress_pct 29 50 = 57" by code_simp
  have k: "trim ''key'' \<noteq> []" by (simp add: trim_def is_space_def)
  have n: "0 < length (filter eligible fifty_videos)" by (simp add: f l)
  have "progressEvents (handleBatchAnalyze ''key'' (\<lambda>i. ok_script 2) fifty_videos initial_state)
      = 0 # map (\<lambda>j. progress_pct (Suc j) 50) [0 ..< 50] @ [100]"
    using handleBatchAnalyze_progress [OF k n, of "\<lambda>i. ok_script 2" initial_state]
    unfolding Let_def f l by (simp add: initial_state_def)
  then have "progressEvents (handleBatchAnalyze ''key'' (\<lambda>i. ok_script 2) fifty_videos initial_state) ! 29
      = progress_pct 29 50"
    by (simp add: nth_append)
  then show ?thesis by (simp add: f l p)
qed

theorem progress_nondecreasing_witness:
  "trim ''key'' \<noteq> [] \<and> 0 < length (filter eligible scenario_videos) \<and>
   progressEvents (handleBatchAnalyze ''key'' scenario_env scenario_videos initial_state)
     = [0, 33, 66, 100, 100] \<and>
   sorted [0, 33, 66, 100, 100 :: nat] \<and>
   progress (handleBatchAnalyze ''key'' scenario_env scenario_videos initial_state) = 100"
proof -
  have k: "trim ''key'' \<noteq> []" by (simp add: trim_def is_space_def)
  have el: "filter eligible scenario_videos = scenario_videos"
    by (simp add: sample_defs eligible_def)
  have len: "length scenario_videos = 3" by (simp add: scenario_videos_def)
  have n: "0 < length (filter eligible scenario_videos)" by (simp add: el len)
  have p: "map (\<lambda>j. progress_pct (Suc j) 3) [0 ..< 3] = [33, 66, 100]"
    by code_simp
  note th = progress_nondecreasing [OF k n, of scenario_env initial_state, unfolded Let_def el len p]
  have e: "progressEvents initial_state = []" by (simp add: initial_state_def)
  show ?thesis using th k n unfolding e by simp
qed

section \<open>Result Merge\<close>

lemma strip_with_enrichment [simp]: "strip_enrichment (with_enrichment a j) = strip_enrichment j"
  by (simp add: strip_enrichment_def with_enrichment_def)


















section \<open>Properties of the export\<close>

lemma is_digit_numeral_char: "is_digit c \<Longrightarrow> numeral_char c"
  by (simp add: numeral_char_def)

lemma quote_not_numeral_char [simp]: "\<not> numeral_char (CHR 0x22)" "\<not> is_digit (CHR 0x22)"
  by (simp_all add: numeral_char_def is_digit_def)

lemma split_digits_append:
  assumes "\<exists>c \<in> set s. \<not> is_digit c"
  shows "split_digits (s @ b) = (fst (split_digits s), snd (split_digits s) @ b)"
  using assms by (auto simp: split_digits_def takeWhile_append1 dropWhile_append1)

lemma split_digits_rest:
  "c \<in> set s \<Longrightarrow> \<not> is_digit c \<Longrightarrow> c \<in> set (snd (split_digits s))"
  by (induction s) (auto simp: split_digits_def)

lemma expect_append:
  "xs \<noteq> [] \<Longrightarrow> expect c (xs @ b) = map_option (\<lambda>r. r @ b) (expect c xs)"
  by (cases xs) auto

lemma opt_minus_append:
  "s \<noteq> [] \<Longrightarrow> opt_minus (s @ b) = (fst (opt_minus s), snd (opt_minus s) @ b)"
  by (cases s) (auto simp: opt_minus_def)

lemma opt_minus_rest:
  "c \<in> set s \<Longrightarrow> \<not> numeral_char c \<Longrightarrow> c \<in> set (snd (opt_minus s))"
  by (cases s) (auto simp: opt_minus_def numeral_char_def)

lemma expect_rest:
  "expect d xs = Some r \<Longrightarrow> c \<in> set xs \<Longrightarrow> c \<noteq> d \<Longrightarrow> c \<in> set r"
  by (cases xs) (auto split: if_splits)

lemma match_decimal_append:
  assumes "c \<in> set s" and "\<not> numeral_char c"
  shows "match_decimal (s @ b) = map_option (\<lambda>(n, r). (n, r @ b)) (match_decimal s)"
proof -
  have nd: "\<not> is_digit c" and ndot: "c \<noteq> CHR ''.''"
    using assms(2) by (auto simp: numeral_char_def)
  obtain sgn r0 where o: "opt_minus s = (sgn, r0)" by (cases "opt_minus s")
  have sne: "s \<noteq> []" using assms(1) by auto
  have o': "opt_minus (s @ b) = (sgn, r0 @ b)" using opt_minus_append [OF sne, of b] o by simp
  have c0: "c \<in> set r0" using opt_minus_rest [OF assms] o by simp
  obtain d1 r1 where s1: "split_digits r0 = (d1, r1)" by (cases "split_digits r0")
  have s1': "split_digits (r0 @ b) = (d1, r1 @ b)"
    using split_digits_append [of r0 b] c0 nd s1 by auto
  have c1: "c \<in> set r1" using split_digits_rest [OF c0 nd] s1 by simp
  then have r1ne: "r1 \<noteq> []" by auto
  show ?thesis
  proof (cases "d1 = []")
    case True
    then show ?thesis by (simp add: match_decimal_def o o' s1 s1')
  next
    case d1: False
    show ?thesis
    proof (cases "expect (CHR ''.'') r1")
      case None
      then show ?thesis
        using d1 by (simp add: match_decimal_def o o' s1 s1' expect_append [OF r1ne])
    next
      case (Some r2)
      have c2: "c \<in> set r2" using expect_rest [OF Some c1 ndot] .
      obtain d2 r3 where s2: "split_digits r2 = (d2, r3)" by (cases "split_digits r2")
      have s2': "split_digits (r2 @ b) = (d2, r3 @ b)"
        using split_digits_append [of r2 b] c2 nd s2 by auto
      have c3: "c \<in> set r3" using split_digits_rest [OF c2 nd] s2 by simp
      then have r3ne: "r3 \<noteq> []" by auto
      show ?thesis
        using d1 Some
        by (cases "expect (CHR 0x22) r3")
           (simp_all add: match_decimal_def o o' s1 s1' s2 s2' expect_append [OF r1ne]
              expect_append [OF r3ne])
    qed
  qed
qed

lemma strip_no_quote:
  "CHR 0x22 \<notin> set a \<Longrightarrow> strip_numeric_quotes (a @ b) = a @ strip_numeric_quotes b"
  by (induction a) auto

lemma strip_append_stopper:
  assumes "a = [] \<or> stopper (last a)"
  shows "strip_numeric_quotes (a @ b) = strip_numeric_quotes a @ strip_numeric_quotes b"
  using assms
proof (induction a rule: strip_numeric_quotes.induct)
  case 1
  then show ?case by simp
next
  case (2 c cs)
  show ?case
  proof (cases "cs = []")
    case True
    with "2.prems" show ?thesis by (simp add: stopper_def match_decimal_def opt_minus_def split_digits_def)
  next
    case False
    with "2.prems" have st: "stopper (last cs)" by simp
    then have mem: "last cs \<in> set cs" and nn: "\<not> numeral_char (last cs)"
      using False by (simp_all add: stopper_def)
    show ?thesis
    proof (cases "c = CHR 0x22")
      case q: True
      show ?thesis
      proof (cases "match_decimal cs")
        case None
        then have "match_decimal (cs @ b) = None"
          by (simp add: match_decimal_append [OF mem nn])
        with None q "2.IH"(1) [OF q None] st show ?thesis by simp
      next
        case (Some p)
        obtain n r where p: "p = (n, r)" by (cases p)
        have m': "match_decimal (cs @ b) = Some (n, r @ b)"
          using Some p by (simp add: match_decimal_append [OF mem nn])
        have sh: "cs = n @ CHR 0x22 # r" using match_decimal_shape Some p by simp
        have "r = [] \<or> stopper (last r)"
        proof (cases "r = []")
          case True then show ?thesis by simp
        next
          case False
          with sh have "last cs = last r" by simp
          with st show ?thesis by simp
        qed
        moreover have "r \<noteq> []"
        proof
          assume "r = []"
          with sh have "last cs = CHR 0x22" by simp
          with st show False by (simp add: stopper_def)
        qed
        ultimately have "strip_numeric_quotes (r @ b) = strip_numeric_quotes r @ strip_numeric_quotes b"
          using "2.IH"(2) [OF q Some [unfolded p] refl] by simp
        with q Some p m' show ?thesis by simp
      qed
    next
      case nq: False
      with "2.IH"(3) [OF nq] st show ?thesis by simp
    qed
  qed
qed

lemma digit_char_is_digit: "d < 10 \<Longrightarrow> is_digit (''0123456789'' ! d)"
proof -
  assume "d < 10"
  then have "d < length ''0123456789''" by simp
  then have "''0123456789'' ! d \<in> set ''0123456789''" by (rule nth_mem)
  then show ?thesis by (simp only: is_digit_def)
qed

lemma digits_all: "\<forall>c \<in> set (digits n). is_digit c"
proof (induction n rule: digits.induct)
  case (1 n)
  show ?case
  proof (cases "n < 10")
    case True
    then show ?thesis by (subst digits.simps) (simp add: digit_char_is_digit)
  next
    case False
    have "n mod 10 < 10" by simp
    then have "is_digit (''0123456789'' ! (n mod 10))" by (rule digit_char_is_digit)
    with 1 False show ?thesis by (subst digits.simps) auto
  qed
qed

lemma digits_nonempty [simp]: "digits n \<noteq> []"
  by (subst digits.simps) simp

lemma frac_digits_all: "\<forall>c \<in> set (frac_digits e k). is_digit c"
proof (induction e arbitrary: k)
  case 0 then show ?case by simp
next
  case (Suc e)
  have "k mod 10 < 10" by simp
  then have "is_digit (''0123456789'' ! (k mod 10))" by (rule digit_char_is_digit)
  with Suc show ?case by auto
qed

lemma length_frac_digits [simp]: "length (frac_digits e k) = e"
  by (induction e arbitrary: k) simp_all

lemma split_digits_all:
  "\<forall>c \<in> set ds. is_digit c \<Longrightarrow> r = [] \<or> \<not> is_digit (hd r) \<Longrightarrow> split_digits (ds @ r) = (ds, r)"
  by (cases r) (auto simp: split_digits_def takeWhile_append2 dropWhile_append2
       intro: takeWhile_eq_all_conv [THEN iffD2] dropWhile_eq_Nil_conv [THEN iffD2])

lemma opt_minus_sign:
  "r \<noteq> [] \<Longrightarrow> hd r \<noteq> CHR ''-'' \<Longrightarrow> opt_minus (sign_text m @ r) = (sign_text m, r)"
  by (cases r) (auto simp: opt_minus_def sign_text_def)

lemma not_digit_minus [simp]: "\<not> is_digit (CHR ''-'')" "\<not> is_digit (CHR ''.'')"
  by (simp_all add: is_digit_def)


text \<open>A decimal numeral: optional minus, digits, a point, digits.\<close>

lemma match_decimal_numeral:
  assumes "\<forall>c \<in> set d1. is_digit c" "d1 \<noteq> []" "\<forall>c \<in> set d2. is_digit c" "d2 \<noteq> []"
  shows "match_decimal (sign_text m @ d1 @ CHR ''.'' # d2 @ CHR 0x22 # rest)
     = Some (sign_text m @ d1 @ CHR ''.'' # d2, rest)"
proof -
  have h: "hd (d1 @ CHR ''.'' # d2 @ CHR 0x22 # rest) \<noteq> CHR ''-''"
    using assms(1,2) by (cases d1) auto
  have o: "opt_minus (sign_text m @ d1 @ CHR ''.'' # d2 @ CHR 0x22 # rest)
      = (sign_text m, d1 @ CHR ''.'' # d2 @ CHR 0x22 # rest)"
    using assms(2) h by (intro opt_minus_sign) simp_all
  have s1: "split_digits (d1 @ CHR ''.'' # d2 @ CHR 0x22 # rest) = (d1, CHR ''.'' # d2 @ CHR 0x22 # rest)"
    using assms(1) by (intro split_digits_all) simp_all
  have s2: "split_digits (d2 @ CHR 0x22 # rest) = (d2, CHR 0x22 # rest)"
    using assms(3) by (intro split_digits_all) simp_all
  show ?thesis
    using assms(2,4) by (simp add: match_decimal_def o s1 s2)
qed

lemma match_decimal_toFixed1:
  "match_decimal (toFixed1 v @ CHR 0x22 # rest) = Some (toFixed1 v, rest)"
proof -
  obtain m e where n: "normalize v = Dec m e" by (cases "normalize v")
  have z: "\<forall>c \<in> set ''0''. is_digit c" by (simp add: is_digit_def)
  have "match_decimal (sign_text m @ digits (nat \<bar>m\<bar> div 10 ^ e) @ CHR ''.'' # ''0'' @ CHR 0x22 # rest)
     = Some (sign_text m @ digits (nat \<bar>m\<bar> div 10 ^ e) @ CHR ''.'' # ''0'', rest)"
    using digits_all z by (intro match_decimal_numeral) simp_all
  then show ?thesis by (simp add: toFixed1_def n)
qed

lemma numeral_chars_no_quote:
  "\<forall>c \<in> set s. numeral_char c \<Longrightarrow> CHR 0x22 \<notin> set s"
  by auto

lemma escape_numeral_chars: "\<forall>c \<in> set ''0123456789-.''. escape_char c = [c]"
  by code_simp

lemma escape_numeral_char: "numeral_char c \<Longrightarrow> escape_char c = [c]"
proof -
  assume "numeral_char c"
  then have "c \<in> set ''0123456789-.''" by (auto simp: numeral_char_def is_digit_def)
  with escape_numeral_chars show ?thesis by blast
qed

lemma quote_numeral_chars:
  "\<forall>c \<in> set s. numeral_char c \<Longrightarrow> quote s = CHR 0x22 # s @ [CHR 0x22]"
proof -
  assume a: "\<forall>c \<in> set s. numeral_char c"
  then have "concat (map escape_char s) = s"
    by (induction s) (simp_all add: escape_numeral_char)
  then show ?thesis by (simp add: quote_def)
qed

lemma sign_text_chars: "\<forall>c \<in> set (sign_text m). numeral_char c"
  by (simp add: sign_text_def numeral_char_def)

lemma toFixed1_chars: "\<forall>c \<in> set (toFixed1 v). numeral_char c"
proof -
  obtain m e where n: "normalize v = Dec m e" by (cases "normalize v")
  have "is_digit (CHR ''0'')" by (simp add: is_digit_def)
  then show ?thesis
    using sign_text_chars [of m] digits_all [of "nat \<bar>m\<bar> div 10 ^ e"]
    by (auto simp: toFixed1_def n numeral_char_def)
qed

lemma toString_chars: "\<forall>c \<in> set (toString v). numeral_char c"
proof -
  obtain m e where n: "normalize v = Dec m e" by (cases "normalize v")
  show ?thesis
    using sign_text_chars [of m] digits_all [of "nat \<bar>m\<bar> div 10 ^ e"]
      frac_digits_all [of e "nat \<bar>m\<bar> mod 10 ^ e"]
    by (auto simp: toString_def n numeral_char_def)
qed

lemma passes_append: "passes a a' \<Longrightarrow> passes b b' \<Longrightarrow> passes (a @ b) (a' @ b')"
  by (simp add: passes_def)

lemma passes_Nil: "passes [] []"
  by (simp add: passes_def)

lemma passes_no_quote: "CHR 0x22 \<notin> set a \<Longrightarrow> passes a a"
  by (simp add: passes_def strip_no_quote)

lemma passes_stopper: "a = [] \<or> stopper (last a) \<Longrightarrow> passes a (strip_numeric_quotes a)"
  by (simp add: passes_def strip_append_stopper)

lemma passes_number: "passes (stringify (JNumber v)) (number_text v)"
proof (cases "is_integer v")
  case True
  have "quote (toFixed1 v) = CHR 0x22 # toFixed1 v @ [CHR 0x22]"
    by (rule quote_numeral_chars) (rule toFixed1_chars)
  then show ?thesis
    using True by (simp add: passes_def replacer_def number_text_def match_decimal_toFixed1)
next
  case False
  have "CHR 0x22 \<notin> set (toString v)"
    by (rule numeral_chars_no_quote) (rule toString_chars)
  then show ?thesis
    using False by (simp add: replacer_def number_text_def passes_no_quote)
qed

lemma passes_bool: "passes (stringify (JBool b)) (stringify (JBool b))"
  by (rule passes_no_quote) simp

lemma passes_join:
  assumes "\<forall>x \<in> set xs. passes (f x) (g x)"
  shows "passes (join '','' (map f xs)) (join '','' (map g xs))"
  using assms
proof (induction xs rule: induct_list012)
  case 1
  then show ?case by (simp add: passes_Nil)
next
  case (2 x)
  then show ?case by simp
next
  case (3 x y zs)
  have c: "passes '','' '',''" by (rule passes_no_quote) simp
  have r: "passes (join '','' (map f (y # zs))) (join '','' (map g (y # zs)))"
    using 3 by simp
  have x: "passes (f x) (g x)" using 3 by simp
  have "passes (f x @ '','' @ join '','' (map f (y # zs))) (g x @ '','' @ join '','' (map g (y # zs)))"
    by (intro passes_append x c r)
  then show ?case by (simp only: list.map join.simps)
qed

lemma key_texts:
  \<open>key ''name'' = ''"name":''\<close>
  \<open>key ''clips'' = ''"clips":''\<close>
  \<open>key ''transitions'' = ''"transitions":''\<close>
  \<open>key ''logo_outro'' = ''"logo_outro":''\<close>
  \<open>key ''music_file'' = ''"music_file":''\<close>
  \<open>key ''fade_in_duration'' = ''"fade_in_duration":''\<close>
  \<open>key ''fade_out_duration'' = ''"fade_out_duration":''\<close>
  \<open>key ''index'' = ''"index":''\<close>
  \<open>key ''duration'' = ''"duration":''\<close>
  \<open>key ''required'' = ''"required":''\<close>
  \<open>key ''type'' = ''"type":''\<close>
  \<open>key ''between_clips'' = ''"between_clips":''\<close>
  by code_simp+

lemma strip_keys:
  "strip_numeric_quotes (key ''name'') = key ''name''"
  "strip_numeric_quotes (key ''clips'') = key ''clips''"
  "strip_numeric_quotes (key ''transitions'') = key ''transitions''"
  "strip_numeric_quotes (key ''logo_outro'') = key ''logo_outro''"
  "strip_numeric_quotes (key ''music_file'') = key ''music_file''"
  "strip_numeric_quotes (key ''fade_in_duration'') = key ''fade_in_duration''"
  "strip_numeric_quotes (key ''fade_out_duration'') = key ''fade_out_duration''"
  "strip_numeric_quotes (key ''index'') = key ''index''"
  "strip_numeric_quotes (key ''duration'') = key ''duration''"
  "strip_numeric_quotes (key ''required'') = key ''required''"
  "strip_numeric_quotes (key ''type'') = key ''type''"
  "strip_numeric_quotes (key ''between_clips'') = key ''between_clips''"
  by code_simp+

lemma stopper_chars [simp]: "stopper (CHR '':'')" "stopper (CHR '','')"
  by (simp_all add: stopper_def numeral_char_def is_digit_def)

lemma passes_key:
  assumes "strip_numeric_quotes (key k) = key k"
  shows "passes (key k) (key k)"
  using passes_stopper [of "key k"] assms by (simp add: key_def)

lemma passes_string: "passes (quote s @ '','') (strip_numeric_quotes (quote s @ '',''))"
  by (rule passes_stopper) simp

lemma passes_lit:
  "passes ''{'' ''{''" "passes ''}'' ''}''" "passes ''['' ''[''" "passes '']'' '']''"
  "passes '','' '',''"
  by (rule passes_no_quote, simp)+

lemma passes_clip: "passes (stringify (ordered_clip c)) (clip_text c)"
proof -
  have p: "passes (''{'' @ key ''index'' @ stringify (JNumber (clip_index c)) @ '','' @
      key ''duration'' @ stringify (JNumber (clip_duration c)) @ '','' @
      key ''required'' @ stringify (JBool (clip_required c)) @ ''}'')
    (''{'' @ key ''index'' @ number_text (clip_index c) @ '','' @
      key ''duration'' @ number_text (clip_duration c) @ '','' @
      key ''required'' @ stringify (JBool (clip_required c)) @ ''}'')"
    by (intro passes_append passes_lit passes_key passes_number passes_bool strip_keys)
  have e1: "stringify (ordered_clip c) =
     ''{'' @ key ''index'' @ stringify (JNumber (clip_index c)) @ '','' @
      key ''duration'' @ stringify (JNumber (clip_duration c)) @ '','' @
      key ''required'' @ stringify (JBool (clip_required c)) @ ''}''"
    by (simp add: ordered_clip_def key_def)
  have e2: "clip_text c =
     ''{'' @ key ''index'' @ number_text (clip_index c) @ '','' @
      key ''duration'' @ number_text (clip_duration c) @ '','' @
      key ''required'' @ stringify (JBool (clip_required c)) @ ''}''"
    by (simp add: clip_text_def bool_text_def key_texts)
  show ?thesis unfolding e1 e2 by (rule p)
qed

lemma passes_transition: "passes (stringify (ordered_transition t)) (transition_text t)"
proof -
  have p: "passes (''{'' @ key ''type'' @ (quote (trans_type t) @ '','') @
      key ''duration'' @ stringify (JNumber (trans_duration t)) @ '','' @
      key ''between_clips'' @ ''['' @ stringify (JNumber (fst (between_clips t))) @ '','' @
      stringify (JNumber (snd (between_clips t))) @ '']'' @ ''}'')
    (''{'' @ key ''type'' @ strip_numeric_quotes (quote (trans_type t) @ '','') @
      key ''duration'' @ number_text (trans_duration t) @ '','' @
      key ''between_clips'' @ ''['' @ number_text (fst (between_clips t)) @ '','' @
      number_text (snd (between_clips t)) @ '']'' @ ''}'')"
    by (intro passes_append passes_lit passes_key passes_number passes_string strip_keys)
  have e1: "stringify (ordered_transition t) =
     ''{'' @ key ''type'' @ (quote (trans_type t) @ '','') @
      key ''duration'' @ stringify (JNumber (trans_duration t)) @ '','' @
      key ''between_clips'' @ ''['' @ stringify (JNumber (fst (between_clips t))) @ '','' @
      stringify (JNumber (snd (between_clips t))) @ '']'' @ ''}''"
    by (simp add: ordered_transition_def key_def)
  have e2: "transition_text t =
     ''{'' @ key ''type'' @ strip_numeric_quotes (quote (trans_type t) @ '','') @
      key ''duration'' @ number_text (trans_duration t) @ '','' @
      key ''between_clips'' @ ''['' @ number_text (fst (between_clips t)) @ '','' @
      number_text (snd (between_clips t)) @ '']'' @ ''}''"
    by (simp add: transition_text_def key_texts)
  show ?thesis unfolding e1 e2 by (rule p)
qed

lemma stringify_orderedJson:
  "stringify (orderedJson j) =
     ''{'' @ key ''name'' @ (quote (name j) @ '','') @
      key ''clips'' @ ''['' @
         join '','' (map (\<lambda>x. stringify (ordered_clip x)) (clips j)) @ '']'' @ '','' @
      key ''transitions'' @ ''['' @
         join '','' (map (\<lambda>x. stringify (ordered_transition x)) (transitions j)) @ '']'' @ '','' @
      key ''logo_outro'' @ stringify (JBool (logo_outro j)) @ '','' @
      key ''music_file'' @ (quote (music_file j) @ '','') @
      key ''fade_in_duration'' @ stringify (JNumber (fade_in_duration j)) @ '','' @
      key ''fade_out_duration'' @ stringify (JNumber (fade_out_duration j)) @ ''}''"
  by (simp add: orderedJson_def key_def comp_def)

lemma passes_export: "passes (stringify (orderedJson j)) (canonical_export j)"
proof -
  have c: "passes (join '','' (map (\<lambda>x. stringify (ordered_clip x)) (clips j)))
      (join '','' (map clip_text (clips j)))"
    by (rule passes_join) (simp add: passes_clip)
  have t: "passes (join '','' (map (\<lambda>x. stringify (ordered_transition x)) (transitions j)))
      (join '','' (map transition_text (transitions j)))"
    by (rule passes_join) (simp add: passes_transition)
  have p: "passes (''{'' @ key ''name'' @ (quote (name j) @ '','') @
      key ''clips'' @ ''['' @
         join '','' (map (\<lambda>x. stringify (ordered_clip x)) (clips j)) @ '']'' @ '','' @
      key ''transitions'' @ ''['' @
         join '','' (map (\<lambda>x. stringify (ordered_transition x)) (transitions j)) @ '']'' @ '','' @
      key ''logo_outro'' @ stringify (JBool (logo_outro j)) @ '','' @
      key ''music_file'' @ (quote (music_file j) @ '','') @
      key ''fade_in_duration'' @ stringify (JNumber (fade_in_duration j)) @ '','' @
      key ''fade_out_duration'' @ stringify (JNumber (fade_out_duration j)) @ ''}'')
    (''{'' @ key ''name'' @ strip_numeric_quotes (quote (name j) @ '','') @
      key ''clips'' @ ''['' @ join '','' (map clip_text (clips j)) @ '']'' @ '','' @
      key ''transitions'' @ ''['' @
         join '','' (map transition_text (transitions j)) @ '']'' @ '','' @
      key ''logo_outro'' @ stringify (JBool (logo_outro j)) @ '','' @
      key ''music_file'' @ strip_numeric_quotes (quote (music_file j) @ '','') @
      key ''fade_in_duration'' @ number_text (fade_in_duration j) @ '','' @
      key ''fade_out_duration'' @ number_text (fade_out_duration j) @ ''}'')"
    by (intro passes_append passes_lit passes_key passes_number passes_string passes_bool c t
        strip_keys)
  note e1 = stringify_orderedJson [of j]
  have e2: "canonical_export j =
     ''{'' @ key ''name'' @ strip_numeric_quotes (quote (name j) @ '','') @
      key ''clips'' @ ''['' @ join '','' (map clip_text (clips j)) @ '']'' @ '','' @
      key ''transitions'' @ ''['' @
         join '','' (map transition_text (transitions j)) @ '']'' @ '','' @
      key ''logo_outro'' @ stringify (JBool (logo_outro j)) @ '','' @
      key ''music_file'' @ strip_numeric_quotes (quote (music_file j) @ '','') @
      key ''fade_in_duration'' @ number_text (fade_in_duration j) @ '','' @
      key ''fade_out_duration'' @ number_text (fade_out_duration j) @ ''}''"
    by (simp add: canonical_export_def bool_text_def key_texts)
  show ?thesis unfolding e1 e2 by (rule p)
qed

lemma jsonStringWithDecimals_canonical:
  "jsonStringWithDecimals j = canonical_export j"
  using passes_export [of j, unfolded passes_def, rule_format, of "[]"]
  by (simp add: jsonStringWithDecimals_def)














lemma split_digits_digits: "\<forall>c \<in> set (fst (split_digits s)). is_digit c"
  by (auto simp: split_digits_def dest: set_takeWhileD)

lemma split_digits_concat: "fst (split_digits s) @ snd (split_digits s) = s"
  by (simp add: split_digits_def)

lemma split_digits_rest_hd:
  "snd (split_digits s) = [] \<or> \<not> is_digit (hd (snd (split_digits s)))"
  using hd_dropWhile [of is_digit s] by (auto simp: split_digits_def)

lemma opt_minus_cases:
  "opt_minus s = ([], s) \<and> (s = [] \<or> hd s \<noteq> CHR ''-'') \<or> (\<exists>r. s = CHR ''-'' # r \<and> opt_minus s = (''-'', r))"
  by (cases s) (auto simp: opt_minus_def)

lemma matches_decimal_shape:
  assumes "matches_decimal s"
  shows "\<exists>sgn d1 d2. s = sgn @ d1 @ CHR ''.'' # d2 \<and> (sgn = [] \<or> sgn = ''-'')
     \<and> d1 \<noteq> [] \<and> (\<forall>c \<in> set d1. is_digit c) \<and> d2 \<noteq> [] \<and> (\<forall>c \<in> set d2. is_digit c)
     \<and> opt_minus s = (sgn, d1 @ CHR ''.'' # d2)"
proof -
  let ?t = "s @ [CHR 0x22]"
  from assms have m: "match_decimal ?t = Some (s, [])" by (simp add: matches_decimal_def)
  obtain sgn r0 where o: "opt_minus ?t = (sgn, r0)" by (cases "opt_minus ?t")
  obtain d1 r1 where s1: "split_digits r0 = (d1, r1)" by (cases "split_digits r0")
  from m o s1 have d1: "d1 \<noteq> []" by (auto simp: match_decimal_def split: if_splits)
  from m o s1 d1 obtain r2 where e1: "expect (CHR ''.'') r1 = Some r2"
    by (auto simp: match_decimal_def split: if_splits option.splits)
  obtain d2 r3 where s2: "split_digits r2 = (d2, r3)" by (cases "split_digits r2")
  from m o s1 d1 e1 s2 have d2: "d2 \<noteq> []" by (auto simp: match_decimal_def split: if_splits)
  from m o s1 d1 e1 s2 d2 have e2: "expect (CHR 0x22) r3 = Some []" and cap: "s = sgn @ d1 @ CHR ''.'' # d2"
    by (auto simp: match_decimal_def split: if_splits option.splits)
  have sg: "sgn = [] \<or> sgn = ''-''"
    using o opt_minus_cases [of ?t] by auto
  have a1: "\<forall>c \<in> set d1. is_digit c" using split_digits_digits [of r0] s1 by simp
  have a2: "\<forall>c \<in> set d2. is_digit c" using split_digits_digits [of r2] s2 by simp
  have h: "hd (d1 @ CHR ''.'' # d2) \<noteq> CHR ''-''"
    using d1 a1 by (cases d1) auto
  have om: "opt_minus s = (sgn, d1 @ CHR ''.'' # d2)"
  proof (cases "sgn = []")
    case True
    with cap h d1 show ?thesis by (cases d1) (auto simp: opt_minus_def)
  next
    case False
    with sg have "sgn = ''-''" by simp
    with cap show ?thesis by (simp add: opt_minus_def)
  qed
  from cap sg d1 a1 d2 a2 om show ?thesis by blast
qed

lemma matches_decimal_chars:
  assumes "matches_decimal s"
  shows "\<forall>c \<in> set s. numeral_char c"
proof -
  obtain sgn d1 d2 where "s = sgn @ d1 @ CHR ''.'' # d2" "sgn = [] \<or> sgn = ''-''"
    "\<forall>c \<in> set d1. is_digit c" "\<forall>c \<in> set d2. is_digit c"
    using matches_decimal_shape [OF assms] by blast
  then show ?thesis by (auto simp: numeral_char_def)
qed

lemma strip_quoted_decimal:
  assumes "matches_decimal s"
  shows "quote s = CHR 0x22 # s @ [CHR 0x22]"
    and "strip_numeric_quotes (quote s @ rest) = s @ strip_numeric_quotes rest"
proof -
  show q: "quote s = CHR 0x22 # s @ [CHR 0x22]"
    by (rule quote_numeral_chars) (rule matches_decimal_chars [OF assms])
  have "CHR 0x22 \<in> set (s @ [CHR 0x22])" by simp
  then have "match_decimal ((s @ [CHR 0x22]) @ rest)
      = map_option (\<lambda>(n, r). (n, r @ rest)) (match_decimal (s @ [CHR 0x22]))"
    by (rule match_decimal_append) simp
  then have "match_decimal (s @ CHR 0x22 # rest) = Some (s, rest)"
    using assms by (simp add: matches_decimal_def)
  then show "strip_numeric_quotes (quote s @ rest) = s @ strip_numeric_quotes rest"
    by (simp add: q)
qed

lemma decode_matching_decimal:
  assumes "matches_decimal s" and "\<not> leading_zero s"
  shows "\<exists>n. decode_number s = Some n"
proof -
  obtain sgn d1 d2 where sh: "s = sgn @ d1 @ CHR ''.'' # d2" "d1 \<noteq> []"
    "\<forall>c \<in> set d1. is_digit c" "d2 \<noteq> []" "\<forall>c \<in> set d2. is_digit c"
    "opt_minus s = (sgn, d1 @ CHR ''.'' # d2)"
    using matches_decimal_shape [OF assms(1)] by blast
  have s1: "split_digits (d1 @ CHR ''.'' # d2) = (d1, CHR ''.'' # d2)"
    using sh(3) by (intro split_digits_all) simp_all
  have s2: "split_digits d2 = (d2, [])"
    using split_digits_all [of d2 "[]"] sh(5) by simp
  have lz: "\<not> (1 < length d1 \<and> hd d1 = CHR ''0'')"
    using assms(2) by (simp add: leading_zero_def sh(6) s1)
  show ?thesis
    using sh(2,4) lz by (simp add: decode_number_def Let_def sh(6) s1 s2)
qed




lemma strip_comma: "strip_numeric_quotes '','' = '',''"
  by simp

text \<open>
  Claim C9. A string whose whole value matches \<open>-?\d+\.\d+\<close> is stringified between
  quotes without any escape, and the replacement removes these quotes wherever the
  quoted string stands. So a record whose \<open>name\<close> or \<open>music_file\<close> is such a string
  is exported with that field unquoted, and unless its integer part has a leading zero
  the unquoted token reads as a JSON number.
\<close>

theorem numeric_string_unquoted:
  assumes "matches_decimal s"
  shows \<open>quote s = CHR 0x22 # s @ [CHR 0x22]
     \<and> (\<forall>rest. strip_numeric_quotes (quote s @ rest) = s @ strip_numeric_quotes rest)
     \<and> (\<forall>j. name j = s \<longrightarrow>
           (\<exists>rest. stringify (orderedJson j) = ''{"name":"'' @ s @ ''",'' @ rest)
         \<and> (\<exists>rest. jsonStringWithDecimals j = ''{"name":'' @ s @ '','' @ rest))
     \<and> (\<forall>j. music_file j = s \<longrightarrow>
           (\<exists>pre post. stringify (orderedJson j) =
              pre @ '',"music_file":"'' @ s @ ''","fade_in_duration":'' @ post)
         \<and> (\<exists>pre post. jsonStringWithDecimals j =
              pre @ '',"music_file":'' @ s @ '',"fade_in_duration":'' @ post))
     \<and> (\<not> leading_zero s \<longrightarrow> (\<exists>n. decode_number s = Some n))\<close>
proof -
  note q = strip_quoted_decimal [OF assms]
  have sq: "strip_numeric_quotes (quote s @ '','') = s @ '',''"
    using q(2) [of "'',''"] by (simp only: strip_comma)
  have n1: \<open>\<exists>rest. stringify (orderedJson j) = ''{"name":"'' @ s @ ''",'' @ rest\<close>
    if "name j = s" for j
    unfolding stringify_orderedJson key_texts using that by (simp add: q(1))
  have n2: \<open>\<exists>rest. jsonStringWithDecimals j = ''{"name":'' @ s @ '','' @ rest\<close>
    if "name j = s" for j
    unfolding jsonStringWithDecimals_canonical canonical_export_def using that by (simp add: sq)
  have m1: \<open>\<exists>pre post. stringify (orderedJson j) =
              pre @ '',"music_file":"'' @ s @ ''","fade_in_duration":'' @ post\<close>
    if "music_file j = s" for j
  proof -
    let ?pre = "''{'' @ key ''name'' @ (quote (name j) @ '','') @
      key ''clips'' @ ''['' @
         join '','' (map (\<lambda>x. stringify (ordered_clip x)) (clips j)) @ '']'' @ '','' @
      key ''transitions'' @ ''['' @
         join '','' (map (\<lambda>x. stringify (ordered_transition x)) (transitions j)) @ '']'' @ '','' @
      key ''logo_outro'' @ stringify (JBool (logo_outro j))"
    let ?post = "stringify (JNumber (fade_in_duration j)) @ '','' @
      key ''fade_out_duration'' @ stringify (JNumber (fade_out_duration j)) @ ''}''"
    have \<open>stringify (orderedJson j) = ?pre @ '',"music_file":"'' @ s @ ''","fade_in_duration":'' @ ?post\<close>
      unfolding stringify_orderedJson using that by (simp add: q(1) key_texts)
    then show ?thesis by blast
  qed
  have m2: \<open>\<exists>pre post. jsonStringWithDecimals j =
              pre @ '',"music_file":'' @ s @ '',"fade_in_duration":'' @ post\<close>
    if "music_file j = s" for j
  proof -
    let ?pre = \<open>''{"name":'' @ strip_numeric_quotes (quote (name j) @ '','') @
     ''"clips":['' @ join '','' (map clip_text (clips j)) @
     ''],"transitions":['' @ join '','' (map transition_text (transitions j)) @
     ''],"logo_outro":'' @ bool_text (logo_outro j)\<close>
    let ?post = \<open>number_text (fade_in_duration j) @
     '',"fade_out_duration":'' @ number_text (fade_out_duration j) @ ''}''\<close>
    have \<open>jsonStringWithDecimals j = ?pre @ '',"music_file":'' @ s @ '',"fade_in_duration":'' @ ?post\<close>
      unfolding jsonStringWithDecimals_canonical canonical_export_def using that by (simp add: sq)
    then show ?thesis by blast
  qed
  have d: "\<not> leading_zero s \<longrightarrow> (\<exists>n. decode_number s = Some n)"
    using decode_matching_decimal [OF assms] by blast
  from q n1 n2 m1 m2 d show ?thesis by blast
qed

theorem numeric_string_unquoted_witness:
  \<open>matches_decimal ''1.5'' \<and> name numeric_name_json = ''1.5'' \<and>
   (\<exists>rest. stringify (orderedJson numeric_name_json) = ''{"name":"1.5",'' @ rest) \<and>
   (\<exists>rest. jsonStringWithDecimals numeric_name_json = ''{"name":1.5,'' @ rest) \<and>
   \<not> leading_zero ''1.5'' \<and> decode_number ''1.5'' = Some (Dec 15 1) \<and>
   jsonStringWithDecimals numeric_name_json =
     ''{"name":1.5,"clips":[{"index":0.0,"duration":2.5,"required":true}],"transitions":[],"logo_outro":false,"music_file":-20.25,"fade_in_duration":2.0,"fade_out_duration":1.5}''\<close>
proof -
  have m: "matches_decimal ''1.5''" by code_simp
  have n: "name numeric_name_json = ''1.5''" by (simp add: numeric_name_json_def sample_json_def)
  have l: "\<not> leading_zero ''1.5''" by code_simp
  have d: "decode_number ''1.5'' = Some (Dec 15 1)" by code_simp
  note th = numeric_string_unquoted [OF m]
  have a: \<open>\<exists>rest. stringify (orderedJson numeric_name_json) = ''{"name":"1.5",'' @ rest\<close>
    and b: \<open>\<exists>rest. jsonStringWithDecimals numeric_name_json = ''{"name":1.5,'' @ rest\<close>
    using th n by simp_all
  have e: \<open>jsonStringWithDecimals numeric_name_json =
     ''{"name":1.5,"clips":[{"index":0.0,"duration":2.5,"required":true}],"transitions":[],"logo_outro":false,"music_file":-20.25,"fade_in_duration":2.0,"fade_out_duration":1.5}''\<close>
    by code_simp
  from m n a b l d e show ?thesis by blast
qed

text \<open>
  Claim C10. The outer \<open>catch\<close> block calls the export exactly when at least one
  enriched result has been accumulated, with the suffix \<open>-partial-error-recovery\<close>;
  with none accumulated it makes no call and no download appears. The export helper
  itself produces nothing for an empty list. The block records the error message and
  clears \<open>isAnalyzing\<close>.
\<close>

theorem emergency_export_iff_nonempty:
  "autoSaveCalls (batch_catch err st) = autoSaveCalls st @
      (if analyzedResults st = [] then [] else [(analyzedResults st, ''-partial-error-recovery'')])
   \<and> generateAndDownloadCSV timestamp [] suffix = None
   \<and> (analyzedResults st = [] \<longrightarrow>
        autoSaveCalls (batch_catch err st) = autoSaveCalls st
        \<and> downloads timestamp (autoSaveCalls (batch_catch err st)) = downloads timestamp (autoSaveCalls st))
   \<and> (analyzedResults st \<noteq> [] \<longrightarrow>
        (\<exists>d. generateAndDownloadCSV timestamp (analyzedResults st) ''-partial-error-recovery'' = Some d
           \<and> downloads timestamp (autoSaveCalls (batch_catch err st))
               = downloads timestamp (autoSaveCalls st) @ [d]))
   \<and> \<not> isAnalyzing (batch_catch err st)
   \<and> error (batch_catch err st)
       = Some (case err of Error msg \<Rightarrow> msg | NonError \<Rightarrow> ''An unexpected error occurred'')"
  by (auto simp: batch_catch_def Let_def generateAndDownloadCSV_def downloads_def
      List.map_filter_def)

theorem emergency_export_iff_nonempty_witness:
  "analyzedResults initial_state = [] \<and>
   autoSaveCalls (batch_catch (Error ''boom'') initial_state) = [] \<and>
   downloads ''t'' (autoSaveCalls (batch_catch (Error ''boom'') initial_state)) = [] \<and>
   analyzedResults catch_state \<noteq> [] \<and>
   autoSaveCalls (batch_catch (Error ''boom'') catch_state)
     = [([two_scene_video], ''-partial-error-recovery'')] \<and>
   length (downloads ''t'' (autoSaveCalls (batch_catch (Error ''boom'') catch_state))) = 1"
proof -
  have e: "analyzedResults initial_state = []" "autoSaveCalls initial_state = []"
    by (simp_all add: initial_state_def)
  have c: "analyzedResults catch_state = [two_scene_video]" "autoSaveCalls catch_state = []"
    by (simp_all add: catch_state_def initial_state_def)
  note t1 = emergency_export_iff_nonempty [of "Error ''boom''" initial_state "''t''" "[]"]
  note t2 = emergency_export_iff_nonempty [of "Error ''boom''" catch_state "''t''" "[]"]
  have a: "autoSaveCalls (batch_catch (Error ''boom'') initial_state) = []"
    "downloads ''t'' (autoSaveCalls (batch_catch (Error ''boom'') initial_state)) = []"
    using t1 e by (simp_all add: downloads_def List.map_filter_def)
  have b: "autoSaveCalls (batch_catch (Error ''boom'') catch_state)
     = [([two_scene_video], ''-partial-error-recovery'')]"
    using t2 c by simp
  have "\<exists>d. downloads ''t'' (autoSaveCalls (batch_catch (Error ''boom'') catch_state))
       = downloads ''t'' (autoSaveCalls catch_state) @ [d]"
    using t2 c by auto
  then have d: "length (downloads ''t'' (autoSaveCalls (batch_catch (Error ''boom'') catch_state))) = 1"
    by (auto simp: c downloads_def List.map_filter_def)
  from e c a b d show ?thesis by simp
qed

end
